theory Spec2Isabelle
  imports Main "HOL-Library.Word" "HOL-Library.Sublist" "HOL-Library.Multiset"
begin

section \<open>Go values\<close>

text \<open>
  A Go \<^verbatim>\<open>byte\<close> is an unsigned 8-bit value and a Go \<^verbatim>\<open>string\<close> is an immutable
  sequence of bytes; HOL's \<^typ>\<open>char\<close> is exactly an 8-bit value, so a byte is a
  \<^typ>\<open>char\<close>, read as a number by \<open>byte_val\<close>, and both \<^verbatim>\<open>[]byte\<close> and
  \<^verbatim>\<open>string\<close> are \<^typ>\<open>char list\<close>. A \<^verbatim>\<open>rune\<close> is a code point; every rune the
  program handles comes out of the UTF-8 decoder or the case tables, so it is a natural
  number. Addresses are \<^verbatim>\<open>uint64\<close>, with wrap-around. The \<^verbatim>\<open>int\<close> values of the
  program are indices, lengths and counters of a buffer held in memory, at most multiplied
  by 100, and \<^verbatim>\<open>minLength\<close>, which is only compared: none of them can leave the range of
  a 64-bit \<^verbatim>\<open>int\<close>, so they are \<open>nat\<close> and \<open>int\<close> without wrap-around. Go's integer
  division truncates; it is applied to values that are not negative, where it is \<open>div\<close>.
\<close>

type_synonym byte = char
type_synonym rune = nat
type_synonym uint64 = "64 word"

abbreviation byte_val :: "byte \<Rightarrow> nat" where
  "byte_val c \<equiv> of_char c"

text \<open>The slice expression \<^verbatim>\<open>b[lo:hi]\<close>, for \<open>lo \<le> hi \<le> len(b)\<close>.\<close>

definition slice :: "'a list \<Rightarrow> nat \<Rightarrow> nat \<Rightarrow> 'a list" where
  "slice b lo hi = take (hi - lo) (drop lo b)"

section \<open>Package unicode/utf8\<close>

definition RuneError :: rune where "RuneError = 0xFFFD"
definition RuneSelf :: nat where "RuneSelf = 0x80"
definition MaxRune :: rune where "MaxRune = 0x10FFFF"

text \<open>
  The table \<^verbatim>\<open>first\<close> of the package: what the first byte of a sequence announces. An
  ASCII byte stands for itself, an illegal first byte is an error, and a leading byte gives
  the size of the sequence and the range accepted for its second byte.
\<close>

datatype first_info = AS | XX | Lead nat nat nat

definition first :: "nat \<Rightarrow> first_info" where
  "first p0 =
     (if p0 < 0x80 then AS
      else if p0 < 0xC2 then XX
      else if p0 < 0xE0 then Lead 2 0x80 0xBF
      else if p0 = 0xE0 then Lead 3 0xA0 0xBF
      else if p0 < 0xED then Lead 3 0x80 0xBF
      else if p0 = 0xED then Lead 3 0x80 0x9F
      else if p0 < 0xF0 then Lead 3 0x80 0xBF
      else if p0 = 0xF0 then Lead 4 0x90 0xBF
      else if p0 < 0xF4 then Lead 4 0x80 0xBF
      else if p0 = 0xF4 then Lead 4 0x80 0x8F
      else XX)"

text \<open>
  \<^verbatim>\<open>utf8.DecodeRune\<close>: the first rune of \<open>p\<close> and its width in bytes; \<open>(RuneError, 0)\<close>
  for the empty input and \<open>(RuneError, 1)\<close> for an invalid or truncated sequence. The
  masks and shifts of the source are written as \<open>mod\<close> and multiplication.
\<close>

definition DecodeRune :: "byte list \<Rightarrow> rune \<times> nat" where
  "DecodeRune p =
     (if length p < 1 then (RuneError, 0)
      else
        let p0 = byte_val (p ! 0) in
        case first p0 of
          AS \<Rightarrow> (p0, 1)
        | XX \<Rightarrow> (RuneError, 1)
        | Lead sz lo hi \<Rightarrow>
            if length p < sz then (RuneError, 1)
            else
              let b1 = byte_val (p ! 1) in
              if b1 < lo \<or> hi < b1 then (RuneError, 1)
              else if sz \<le> 2 then ((p0 mod 32) * 64 + b1 mod 64, 2)
              else
                let b2 = byte_val (p ! 2) in
                if b2 < 0x80 \<or> 0xBF < b2 then (RuneError, 1)
                else if sz \<le> 3 then ((p0 mod 16) * 4096 + (b1 mod 64) * 64 + b2 mod 64, 3)
                else
                  let b3 = byte_val (p ! 3) in
                  if b3 < 0x80 \<or> 0xBF < b3 then (RuneError, 1)
                  else ((p0 mod 8) * 262144 + (b1 mod 64) * 4096 + (b2 mod 64) * 64
                          + b3 mod 64, 4))"

lemma DecodeRune_size_pos: "p \<noteq> [] \<Longrightarrow> 1 \<le> snd (DecodeRune p)"
  by (cases p) (auto simp: DecodeRune_def Let_def split: first_info.splits)

lemma first_Lead: "first p0 = Lead sz lo hi \<Longrightarrow> 2 \<le> sz \<and> sz \<le> 4"
  by (auto simp: first_def split: if_splits)

lemma DecodeRune_size_le: "snd (DecodeRune p) \<le> length p"
proof (cases p)
  case Nil
  then show ?thesis by (simp add: DecodeRune_def)
next
  case (Cons c q)
  show ?thesis
  proof (cases "first (byte_val c)")
    case (Lead sz lo hi)
    from first_Lead [OF this] have sz: "sz = 2 \<or> sz = 3 \<or> sz = 4" by auto
    show ?thesis using sz Lead Cons by (auto simp: DecodeRune_def Let_def Suc_le_eq)
  qed (auto simp: Cons DecodeRune_def Let_def)
qed

text \<open>
  The runes of a string with their widths, as \<^verbatim>\<open>for _, r := range s\<close> and
  \<^verbatim>\<open>[]rune(s)\<close> read them: every invalid byte is one rune \<open>RuneError\<close> of width 1.
\<close>

function decode_all :: "byte list \<Rightarrow> (rune \<times> nat) list" where
  "decode_all [] = []"
| "decode_all (c # s) = DecodeRune (c # s) # decode_all (drop (snd (DecodeRune (c # s))) (c # s))"
  by pat_completeness auto
termination
proof (relation "measure length")
  fix c :: byte and s :: "byte list"
  have "1 \<le> snd (DecodeRune (c # s))" by (rule DecodeRune_size_pos) simp
  then show "(drop (snd (DecodeRune (c # s))) (c # s), c # s) \<in> measure length" by simp
qed simp

definition runes :: "byte list \<Rightarrow> rune list" where
  "runes s = map fst (decode_all s)"

text \<open>\<^verbatim>\<open>utf8.AppendRune\<close>: the UTF-8 encoding of a rune, \<open>RuneError\<close>'s for a rune out of range.\<close>

definition AppendRune :: "rune \<Rightarrow> byte list" where
  "AppendRune r =
     (if r \<le> 0x7F then [char_of r]
      else if r \<le> 0x7FF then [char_of (0xC0 + r div 64), char_of (0x80 + r mod 64)]
      else if MaxRune < r \<or> (0xD800 \<le> r \<and> r \<le> 0xDFFF) then [CHR 0xEF, CHR 0xBF, CHR 0xBD]
      else if r \<le> 0xFFFF then
        [char_of (0xE0 + r div 4096), char_of (0x80 + (r div 64) mod 64), char_of (0x80 + r mod 64)]
      else
        [char_of (0xF0 + r div 262144), char_of (0x80 + (r div 4096) mod 64),
         char_of (0x80 + (r div 64) mod 64), char_of (0x80 + r mod 64)])"

section \<open>Package unicode\<close>

text \<open>
  The predicates of package \<^verbatim>\<open>unicode\<close> answer for Latin-1 (\<open>r \<le> 0xFF\<close>) from a fixed
  property array, written out here, and for every other rune from the range tables of the
  Unicode version the program is built with. Those tables (\<^verbatim>\<open>unicode.Letter\<close>,
  \<^verbatim>\<open>unicode.Digit\<close>, \<^verbatim>\<open>unicode.CaseRanges\<close>) are a parameter of the model.
\<close>

record unicode_tables =
  Letter_table :: "rune \<Rightarrow> bool"
  Digit_table :: "rune \<Rightarrow> bool"
  LowerCase_table :: "rune \<Rightarrow> rune"

definition MaxASCII :: rune where "MaxASCII = 0x7F"
definition MaxLatin1 :: rune where "MaxLatin1 = 0xFF"

definition IsLetter :: "unicode_tables \<Rightarrow> rune \<Rightarrow> bool" where
  "IsLetter T r =
     (if r \<le> MaxLatin1 then
        (0x41 \<le> r \<and> r \<le> 0x5A) \<or> (0x61 \<le> r \<and> r \<le> 0x7A) \<or> r = 0xAA \<or> r = 0xB5 \<or> r = 0xBA
        \<or> (0xC0 \<le> r \<and> r \<le> 0xD6) \<or> (0xD8 \<le> r \<and> r \<le> 0xF6) \<or> 0xF8 \<le> r
      else Letter_table T r)"

definition IsDigit :: "unicode_tables \<Rightarrow> rune \<Rightarrow> bool" where
  "IsDigit T r = (if r \<le> MaxLatin1 then 0x30 \<le> r \<and> r \<le> 0x39 else Digit_table T r)"

definition IsControl :: "rune \<Rightarrow> bool" where
  "IsControl r = (if r \<le> MaxLatin1 then r \<le> 0x1F \<or> (0x7F \<le> r \<and> r \<le> 0x9F) else False)"

text \<open>\<^verbatim>\<open>unicode.IsSpace\<close>: the Latin-1 cases of the source, and the property White_Space beyond.\<close>

definition IsSpace :: "rune \<Rightarrow> bool" where
  "IsSpace r =
     (if r \<le> MaxLatin1 then (0x09 \<le> r \<and> r \<le> 0x0D) \<or> r = 0x20 \<or> r = 0x85 \<or> r = 0xA0
      else r = 0x1680 \<or> (0x2000 \<le> r \<and> r \<le> 0x200A) \<or> r = 0x2028 \<or> r = 0x2029
           \<or> r = 0x202F \<or> r = 0x205F \<or> r = 0x3000)"

definition unicode_ToLower :: "unicode_tables \<Rightarrow> rune \<Rightarrow> rune" where
  "unicode_ToLower T r =
     (if r \<le> MaxASCII then (if 0x41 \<le> r \<and> r \<le> 0x5A then r + (0x61 - 0x41) else r)
      else LowerCase_table T r)"

text \<open>
  Tables for inputs within Latin-1: the lower-case mapping of the Latin-1 capitals, and
  nothing beyond \<open>0xFF\<close>. The concrete examples below use only code points up to \<open>0xFF\<close>,
  where \<^verbatim>\<open>IsLetter\<close> and \<^verbatim>\<open>IsDigit\<close> never consult a table.
\<close>

definition latin1_tables :: unicode_tables where
  "latin1_tables =
     \<lparr>Letter_table = (\<lambda>r. False), Digit_table = (\<lambda>r. False),
      LowerCase_table = (\<lambda>r. if (0xC0 \<le> r \<and> r \<le> 0xD6) \<or> (0xD8 \<le> r \<and> r \<le> 0xDE) then r + 32 else r)\<rparr>"

section \<open>Package strings\<close>

fun HasPrefix :: "string \<Rightarrow> string \<Rightarrow> bool" where
  "HasPrefix s [] = True"
| "HasPrefix [] (c # p) = False"
| "HasPrefix (d # s) (c # p) = (d = c \<and> HasPrefix s p)"

fun Contains :: "string \<Rightarrow> string \<Rightarrow> bool" where
  "Contains [] substr = HasPrefix [] substr"
| "Contains (c # s) substr = (HasPrefix (c # s) substr \<or> Contains s substr)"

text \<open>
  \<^verbatim>\<open>strings.Map\<close>: every rune of \<open>s\<close> is mapped and encoded again, so that an invalid byte
  (read as \<open>RuneError\<close>) becomes the three bytes of \<open>U+FFFD\<close>.
\<close>

definition Map_runes :: "(rune \<Rightarrow> rune) \<Rightarrow> string \<Rightarrow> string" where
  "Map_runes mapping s = concat (map (\<lambda>r. AppendRune (mapping r)) (runes s))"

text \<open>\<^verbatim>\<open>strings.ToLower\<close>, with its path for strings of ASCII bytes only.\<close>

definition lower_byte :: "byte \<Rightarrow> byte" where
  "lower_byte c = (if 0x41 \<le> byte_val c \<and> byte_val c \<le> 0x5A then char_of (byte_val c + 32) else c)"

definition ToLower :: "unicode_tables \<Rightarrow> string \<Rightarrow> string" where
  "ToLower T s =
     (let isASCII = list_all (\<lambda>c. byte_val c < RuneSelf) s;
          hasUpper = list_ex (\<lambda>c. 0x41 \<le> byte_val c \<and> byte_val c \<le> 0x5A) s
      in if isASCII then (if \<not> hasUpper then s else map lower_byte s)
         else Map_runes (unicode_ToLower T) s)"

text \<open>
  \<^verbatim>\<open>utf8.DecodeLastRune\<close>: the last rune of \<open>p\<close> and its width. The source steps back over
  at most three bytes to the start of the last sequence and decodes from there.
\<close>

definition RuneStart :: "byte \<Rightarrow> bool" where
  "RuneStart b = (byte_val b div 64 \<noteq> 2)"

function last_start :: "byte list \<Rightarrow> int \<Rightarrow> int \<Rightarrow> int" where
  "last_start p start lim =
     (if start \<ge> lim \<and> start \<ge> 0 then
        (if RuneStart (p ! nat start) then start else last_start p (start - 1) lim)
      else start)"
  by pat_completeness auto
termination
  by (relation "measure (\<lambda>(p, start, lim). nat (start + 1))") auto

declare last_start.simps [simp del]

lemma last_start_le: "last_start p start lim \<le> start"
proof (induction p start lim rule: last_start.induct)
  case (1 p start lim)
  then show ?case by (subst last_start.simps) auto
qed

text \<open>
  The end of \<^verbatim>\<open>DecodeLastRune\<close>: decode \<^verbatim>\<open>p[start:end]\<close>; the rune counts only if it ends
  where \<open>p\<close> ends.
\<close>

definition last_rune_at :: "byte list \<Rightarrow> nat \<Rightarrow> rune \<times> nat" where
  "last_rune_at p start =
     (case DecodeRune (slice p start (length p)) of
        (r, sz) \<Rightarrow> if start + sz \<noteq> length p then (RuneError, 1) else (r, sz))"

definition DecodeLastRune :: "byte list \<Rightarrow> rune \<times> nat" where
  "DecodeLastRune p =
     (let end = int (length p) in
      if end = 0 then (RuneError, 0)
      else
        let r = byte_val (p ! nat (end - 1)) in
        if r < RuneSelf then (r, 1)
        else
          let lim = (if end - 4 < 0 then 0 else end - 4);
              start0 = last_start p (end - 2) lim;
              start = (if start0 < 0 then 0 else start0)
          in last_rune_at p (nat start))"

lemma last_rune_at_pos: "start < length p \<Longrightarrow> Suc 0 \<le> snd (last_rune_at p start)"
  by (auto simp: last_rune_at_def split: prod.splits)

lemma DecodeLastRune_size_pos:
  assumes "p \<noteq> []"
  shows "1 \<le> snd (DecodeLastRune p)"
proof -
  have "nat (last_start p (int (length p) - 2) lim) < length p" for lim
    using last_start_le [of p "int (length p) - 2" lim] assms by (cases p) auto
  then show ?thesis
    using assms by (simp add: DecodeLastRune_def Let_def last_rune_at_pos)
qed

text \<open>
  \<^verbatim>\<open>strings.TrimSpace\<close>: the leading and the trailing runes that are white space are cut
  off (\<^verbatim>\<open>TrimLeftFunc\<close>, then \<^verbatim>\<open>TrimRightFunc\<close>, with \<^verbatim>\<open>unicode.IsSpace\<close>).
\<close>

function TrimLeftSpace :: "string \<Rightarrow> string" where
  "TrimLeftSpace [] = []"
| "TrimLeftSpace (c # s) =
     (if IsSpace (fst (DecodeRune (c # s)))
      then TrimLeftSpace (drop (snd (DecodeRune (c # s))) (c # s)) else c # s)"
  by pat_completeness auto
termination
proof (relation "measure length")
  fix c :: byte and s :: "byte list"
  have "1 \<le> snd (DecodeRune (c # s))" by (rule DecodeRune_size_pos) simp
  then show "(drop (snd (DecodeRune (c # s))) (c # s), c # s) \<in> measure length" by simp
qed simp

function TrimRightSpace :: "string \<Rightarrow> string" where
  "TrimRightSpace s =
     (if s = [] then []
      else if IsSpace (fst (DecodeLastRune s))
      then TrimRightSpace (take (length s - snd (DecodeLastRune s)) s) else s)"
  by pat_completeness auto
termination
proof (relation "measure length")
  fix s :: "byte list"
  assume "s \<noteq> []"
  then have "1 \<le> snd (DecodeLastRune s)" by (rule DecodeLastRune_size_pos)
  with \<open>s \<noteq> []\<close> show "(take (length s - snd (DecodeLastRune s)) s, s) \<in> measure length"
    by (cases s) auto
qed simp

declare TrimRightSpace.simps [simp del]

definition TrimSpace :: "string \<Rightarrow> string" where
  "TrimSpace s = TrimRightSpace (TrimLeftSpace s)"

section \<open>Package sort\<close>

unbundle bit_operations_syntax

text \<open>
  \<^verbatim>\<open>sort.Slice\<close> of the Go library (Go 1.19 and later): a pattern-defeating quicksort
  that works on the slice through \<^verbatim>\<open>Less(i, j)\<close> and \<^verbatim>\<open>Swap(i, j)\<close> on indices. The slice is
  a list that every function takes and returns; indices are Go's \<^verbatim>\<open>int\<close>, here \<open>int\<close>. The
  comparison of the program is \<^verbatim>\<open>results[i].Address < results[j].Address\<close>, so \<open>Less\<close>
  applies a comparison \<open>cmp\<close> of elements (the function \<^verbatim>\<open>less\<close> of the caller) to the elements at the two indices.
\<close>

definition Less :: "('a \<Rightarrow> 'a \<Rightarrow> bool) \<Rightarrow> 'a list \<Rightarrow> int \<Rightarrow> int \<Rightarrow> bool" where
  "Less cmp data i j = cmp (data ! nat i) (data ! nat j)"

definition Swap :: "'a list \<Rightarrow> int \<Rightarrow> int \<Rightarrow> 'a list" where
  "Swap data i j = data[nat i := data ! nat j, nat j := data ! nat i]"

text \<open>
  \<^verbatim>\<open>insertionSort_func\<close>: \<open>insertion_shift\<close> is its inner loop
  \<^verbatim>\<open>for j := i; j > a && data.Less(j, j-1); j--\<close>.
\<close>

function insertion_shift :: "('a \<Rightarrow> 'a \<Rightarrow> bool) \<Rightarrow> 'a list \<Rightarrow> int \<Rightarrow> int \<Rightarrow> 'a list" where
  "insertion_shift cmp data a j =
     (if j > a \<and> Less cmp data j (j - 1)
      then insertion_shift cmp (Swap data j (j - 1)) a (j - 1)
      else data)"
  by pat_completeness auto

termination
  by (relation "measure (\<lambda>(cmp, data, a, j). nat (j - a))") auto

declare insertion_shift.simps [simp del]

definition insertionSort_func :: "('a \<Rightarrow> 'a \<Rightarrow> bool) \<Rightarrow> 'a list \<Rightarrow> int \<Rightarrow> int \<Rightarrow> 'a list" where
  "insertionSort_func cmp data a b = fold (\<lambda>i data. insertion_shift cmp data a i) [a + 1..b - 1] data"

text \<open>
  \<^verbatim>\<open>siftDown_func\<close> and \<^verbatim>\<open>heapSort_func\<close>. \<open>lo\<close>, \<open>hi\<close>, \<open>root\<close> and \<open>child\<close> are offsets from
  \<open>first_index\<close> (\<^verbatim>\<open>first\<close> in the library) and are never negative, so they are \<open>nat\<close>. \<open>siftDown_child\<close> is the child that the
  loop body compares with the root. The two loops of \<^verbatim>\<open>heapSort_func\<close> count \<open>i\<close> down to 0.
\<close>

definition siftDown_child :: "('a \<Rightarrow> 'a \<Rightarrow> bool) \<Rightarrow> 'a list \<Rightarrow> nat \<Rightarrow> nat \<Rightarrow> int \<Rightarrow> nat" where
  "siftDown_child cmp data root hi first_index =
     (let child = 2 * root + 1
      in if child + 1 < hi \<and> Less cmp data (first_index + int child) (first_index + int child + 1)
         then child + 1 else child)"

function siftDown_func :: "('a \<Rightarrow> 'a \<Rightarrow> bool) \<Rightarrow> 'a list \<Rightarrow> nat \<Rightarrow> nat \<Rightarrow> int \<Rightarrow> 'a list" where
  "siftDown_func cmp data lo hi first_index =
     (if 2 * lo + 1 \<ge> hi then data
      else if \<not> Less cmp data (first_index + int lo) (first_index + int (siftDown_child cmp data lo hi first_index))
      then data
      else siftDown_func cmp
             (Swap data (first_index + int lo) (first_index + int (siftDown_child cmp data lo hi first_index)))
             (siftDown_child cmp data lo hi first_index) hi first_index)"
  by pat_completeness auto

termination
  by (relation "measure (\<lambda>(cmp, data, lo, hi, first_index). hi - lo)")
    (auto simp: siftDown_child_def Let_def)

declare siftDown_func.simps [simp del]

definition heapSort_func :: "('a \<Rightarrow> 'a \<Rightarrow> bool) \<Rightarrow> 'a list \<Rightarrow> int \<Rightarrow> int \<Rightarrow> 'a list" where
  "heapSort_func cmp data a b =
     (let first_index = a; lo = 0; hi = nat (b - a);
          data = fold (\<lambda>i data. siftDown_func cmp data i hi first_index)
                   (rev [0..<(hi - 1) div 2 + 1]) data;
          data = fold (\<lambda>i data. siftDown_func cmp (Swap data first_index (first_index + int i)) lo i first_index)
                   (rev [0..<hi]) data
      in data)"

text \<open>
  \<^verbatim>\<open>choosePivot_func\<close> with \<^verbatim>\<open>order2_func\<close>, \<^verbatim>\<open>median_func\<close> and \<^verbatim>\<open>medianAdjacent_func\<close>; the
  counter \<^verbatim>\<open>*swaps\<close> is passed in and returned.
\<close>

datatype sortedHint = unknownHint | increasingHint | decreasingHint

definition order2_func :: "('a \<Rightarrow> 'a \<Rightarrow> bool) \<Rightarrow> 'a list \<Rightarrow> int \<Rightarrow> int \<Rightarrow> nat \<Rightarrow> int \<times> int \<times> nat" where
  "order2_func cmp data a b swaps =
     (if Less cmp data b a then (b, a, swaps + 1) else (a, b, swaps))"

definition median_func :: "('a \<Rightarrow> 'a \<Rightarrow> bool) \<Rightarrow> 'a list \<Rightarrow> int \<Rightarrow> int \<Rightarrow> int \<Rightarrow> nat \<Rightarrow> int \<times> nat" where
  "median_func cmp data a b c swaps =
     (case order2_func cmp data a b swaps of (a, b, swaps) \<Rightarrow>
      case order2_func cmp data b c swaps of (b, c, swaps) \<Rightarrow>
      case order2_func cmp data a b swaps of (a, b, swaps) \<Rightarrow> (b, swaps))"

definition medianAdjacent_func :: "('a \<Rightarrow> 'a \<Rightarrow> bool) \<Rightarrow> 'a list \<Rightarrow> int \<Rightarrow> nat \<Rightarrow> int \<times> nat" where
  "medianAdjacent_func cmp data a swaps = median_func cmp data (a - 1) a (a + 1) swaps"

definition choosePivot_func :: "('a \<Rightarrow> 'a \<Rightarrow> bool) \<Rightarrow> 'a list \<Rightarrow> int \<Rightarrow> int \<Rightarrow> int \<times> sortedHint" where
  "choosePivot_func cmp data a b =
     (let l = b - a;
          swaps = 0;
          i = a + l div 4 * 1;
          j = a + l div 4 * 2;
          k = a + l div 4 * 3;
          (j, swaps) =
            (if l \<ge> 8 then
               (case (if l \<ge> 50 then
                        (case medianAdjacent_func cmp data i swaps of (i, swaps) \<Rightarrow>
                         case medianAdjacent_func cmp data j swaps of (j, swaps) \<Rightarrow>
                         case medianAdjacent_func cmp data k swaps of (k, swaps) \<Rightarrow>
                           (i, j, k, swaps))
                      else (i, j, k, swaps))
                of (i, j, k, swaps) \<Rightarrow> median_func cmp data i j k swaps)
             else (j, swaps))
      in if swaps = 0 then (j, increasingHint)
         else if swaps = 4 * 3 then (j, decreasingHint)
         else (j, unknownHint))"

text \<open>\<^verbatim>\<open>reverseRange_func\<close>.\<close>

function reverseRange_loop :: "'a list \<Rightarrow> int \<Rightarrow> int \<Rightarrow> 'a list" where
  "reverseRange_loop data i j =
     (if i < j then reverseRange_loop (Swap data i j) (i + 1) (j - 1) else data)"
  by pat_completeness auto

termination
  by (relation "measure (\<lambda>(data, i, j). nat (j - i))") auto

declare reverseRange_loop.simps [simp del]

definition reverseRange_func :: "'a list \<Rightarrow> int \<Rightarrow> int \<Rightarrow> 'a list" where
  "reverseRange_func data a b = reverseRange_loop data a (b - 1)"

text \<open>
  \<^verbatim>\<open>partialInsertionSort_func\<close> returns the slice and whether it is sorted at the end.
  \<open>partial_scan\<close> is the loop \<^verbatim>\<open>for i < b && !data.Less(i, i-1)\<close>, \<open>shift_left\<close> and
  \<open>shift_right\<close> are the two loops that shift the smaller one to the left and the greater
  one to the right, and the last argument of \<open>partialInsertionSort_loop\<close> counts the
  remaining ones of the \<^verbatim>\<open>maxSteps = 5\<close> rounds.
\<close>

function partial_scan :: "('a \<Rightarrow> 'a \<Rightarrow> bool) \<Rightarrow> 'a list \<Rightarrow> int \<Rightarrow> int \<Rightarrow> int" where
  "partial_scan cmp data i b =
     (if i < b \<and> \<not> Less cmp data i (i - 1) then partial_scan cmp data (i + 1) b else i)"
  by pat_completeness auto

termination
  by (relation "measure (\<lambda>(cmp, data, i, b). nat (b - i))") auto

declare partial_scan.simps [simp del]

function shift_left :: "('a \<Rightarrow> 'a \<Rightarrow> bool) \<Rightarrow> 'a list \<Rightarrow> int \<Rightarrow> 'a list" where
  "shift_left cmp data j =
     (if j \<ge> 1 \<and> Less cmp data j (j - 1)
      then shift_left cmp (Swap data j (j - 1)) (j - 1)
      else data)"
  by pat_completeness auto

termination
  by (relation "measure (\<lambda>(cmp, data, j). nat j)") auto

declare shift_left.simps [simp del]

function shift_right :: "('a \<Rightarrow> 'a \<Rightarrow> bool) \<Rightarrow> 'a list \<Rightarrow> int \<Rightarrow> int \<Rightarrow> 'a list" where
  "shift_right cmp data j b =
     (if j < b \<and> Less cmp data j (j - 1)
      then shift_right cmp (Swap data j (j - 1)) (j + 1) b
      else data)"
  by pat_completeness auto

termination
  by (relation "measure (\<lambda>(cmp, data, j, b). nat (b - j))") auto

declare shift_right.simps [simp del]

fun partialInsertionSort_loop ::
  "('a \<Rightarrow> 'a \<Rightarrow> bool) \<Rightarrow> 'a list \<Rightarrow> int \<Rightarrow> int \<Rightarrow> int \<Rightarrow> nat \<Rightarrow> 'a list \<times> bool" where
  "partialInsertionSort_loop cmp data a b i 0 = (data, False)"
| "partialInsertionSort_loop cmp data a b i (Suc steps) =
     (let i = partial_scan cmp data i b
      in if i = b then (data, True)
         else if b - a < 50 then (data, False)
         else
           (let data = Swap data i (i - 1);
                data = (if i - a \<ge> 2 then shift_left cmp data (i - 1) else data);
                data = (if b - i \<ge> 2 then shift_right cmp data (i + 1) b else data)
            in partialInsertionSort_loop cmp data a b i steps))"

definition partialInsertionSort_func :: "('a \<Rightarrow> 'a \<Rightarrow> bool) \<Rightarrow> 'a list \<Rightarrow> int \<Rightarrow> int \<Rightarrow> 'a list \<times> bool" where
  "partialInsertionSort_func cmp data a b = partialInsertionSort_loop cmp data a b (a + 1) 5"

text \<open>
  The two partitions. \<open>scan_up p i j\<close> is a loop \<^verbatim>\<open>for i <= j && p(i) { i++ }\<close> and
  \<open>scan_down p i j\<close> a loop \<^verbatim>\<open>for i <= j && p(j) { j-- }\<close>; the slice does not change
  while they run. \<open>partitionEqual_loop\<close> and \<open>partition_loop\<close> are the loops \<^verbatim>\<open>for { ... }\<close>,
  which end at \<^verbatim>\<open>break\<close>.
\<close>

function scan_up :: "(int \<Rightarrow> bool) \<Rightarrow> int \<Rightarrow> int \<Rightarrow> int" where
  "scan_up p i j = (if i \<le> j \<and> p i then scan_up p (i + 1) j else i)"
  by pat_completeness auto

termination
  by (relation "measure (\<lambda>(p, i, j). nat (j + 1 - i))") auto

declare scan_up.simps [simp del]

function scan_down :: "(int \<Rightarrow> bool) \<Rightarrow> int \<Rightarrow> int \<Rightarrow> int" where
  "scan_down p i j = (if i \<le> j \<and> p j then scan_down p i (j - 1) else j)"
  by pat_completeness auto

termination
  by (relation "measure (\<lambda>(p, i, j). nat (j + 1 - i))") auto

declare scan_down.simps [simp del]

lemma scan_up_step: "i \<le> j \<Longrightarrow> p i \<Longrightarrow> scan_up p i j = scan_up p (i + 1) j"
  by (subst scan_up.simps) simp

lemma scan_up_end: "\<not> (i \<le> j \<and> p i) \<Longrightarrow> scan_up p i j = i"
  by (subst scan_up.simps) (rule if_not_P)

lemma scan_down_step: "i \<le> j \<Longrightarrow> p j \<Longrightarrow> scan_down p i j = scan_down p i (j - 1)"
  by (subst scan_down.simps) simp

lemma scan_down_end: "\<not> (i \<le> j \<and> p j) \<Longrightarrow> scan_down p i j = j"
  by (subst scan_down.simps) (rule if_not_P)

lemma scan_up_ge: "i \<le> scan_up p i j"
proof (induction p i j rule: scan_up.induct)
  case (1 p i j)
  show ?case
  proof (cases "i \<le> j \<and> p i")
    case True
    with 1 show ?thesis by (simp add: scan_up_step)
  next
    case False
    then show ?thesis by (simp add: scan_up_end)
  qed
qed

lemma scan_down_le: "scan_down p i j \<le> j"
proof (induction p i j rule: scan_down.induct)
  case (1 p i j)
  show ?case
  proof (cases "i \<le> j \<and> p j")
    case True
    with 1 show ?thesis by (simp add: scan_down_step)
  next
    case False
    then show ?thesis by (simp add: scan_down_end)
  qed
qed

function partitionEqual_loop :: "('a \<Rightarrow> 'a \<Rightarrow> bool) \<Rightarrow> 'a list \<Rightarrow> int \<Rightarrow> int \<Rightarrow> int \<Rightarrow> 'a list \<times> int" where
  "partitionEqual_loop cmp data a i j =
     (let i = scan_up (\<lambda>i. \<not> Less cmp data a i) i j;
          j = scan_down (\<lambda>j. Less cmp data a j) i j
      in if i > j then (data, i)
         else partitionEqual_loop cmp (Swap data i j) a (i + 1) (j - 1))"
  by pat_completeness auto

termination
proof (relation "measure (\<lambda>(cmp, data, a, i, j). nat (j + 1 - i))", goal_cases)
  case 1
  show ?case by simp
next
  case (2 cmp data a i j i' j')
  with scan_up_ge [of i "\<lambda>i. \<not> Less cmp data a i" j]
    scan_down_le [of "\<lambda>j. Less cmp data a j" i' j]
  show ?case by simp
qed

declare partitionEqual_loop.simps [simp del]

definition partitionEqual_func :: "('a \<Rightarrow> 'a \<Rightarrow> bool) \<Rightarrow> 'a list \<Rightarrow> int \<Rightarrow> int \<Rightarrow> int \<Rightarrow> 'a list \<times> int" where
  "partitionEqual_func cmp data a b pivot =
     (let data = Swap data a pivot;
          i = a + 1;
          j = b - 1
      in partitionEqual_loop cmp data a i j)"

function partition_loop :: "('a \<Rightarrow> 'a \<Rightarrow> bool) \<Rightarrow> 'a list \<Rightarrow> int \<Rightarrow> int \<Rightarrow> int \<Rightarrow> 'a list \<times> int" where
  "partition_loop cmp data a i j =
     (let i = scan_up (\<lambda>i. Less cmp data i a) i j;
          j = scan_down (\<lambda>j. \<not> Less cmp data j a) i j
      in if i > j then (data, j)
         else partition_loop cmp (Swap data i j) a (i + 1) (j - 1))"
  by pat_completeness auto

termination
proof (relation "measure (\<lambda>(cmp, data, a, i, j). nat (j + 1 - i))", goal_cases)
  case 1
  show ?case by simp
next
  case (2 cmp data a i j i' j')
  with scan_up_ge [of i "\<lambda>i. Less cmp data i a" j]
    scan_down_le [of "\<lambda>j. \<not> Less cmp data j a" i' j]
  show ?case by simp
qed

declare partition_loop.simps [simp del]

definition partition_func :: "('a \<Rightarrow> 'a \<Rightarrow> bool) \<Rightarrow> 'a list \<Rightarrow> int \<Rightarrow> int \<Rightarrow> int \<Rightarrow> 'a list \<times> int \<times> bool" where
  "partition_func cmp data a b pivot =
     (let data = Swap data a pivot;
          i = a + 1;
          j = b - 1;
          i = scan_up (\<lambda>i. Less cmp data i a) i j;
          j = scan_down (\<lambda>j. \<not> Less cmp data j a) i j
      in if i > j then (Swap data j a, j, True)
         else (case partition_loop cmp (Swap data i j) a (i + 1) (j - 1) of
                 (data, j) \<Rightarrow> (Swap data j a, j, False)))"

text \<open>
  \<^verbatim>\<open>breakPatterns_func\<close> swaps three elements around the middle of \<^verbatim>\<open>data[a:b]\<close> with elements
  at pseudo-random places. \<open>next\<close> is the step \<^verbatim>\<open>Next\<close> of the library's generator, a
  parameter of the model; \<^verbatim>\<open>uint\<close> has 64 bits.
\<close>

fun bits_Len :: "nat \<Rightarrow> nat" where
  "bits_Len x = (if x = 0 then 0 else bits_Len (x div 2) + 1)"

definition nextPowerOfTwo :: "int \<Rightarrow> uint64" where
  "nextPowerOfTwo n = push_bit (bits_Len (nat n)) 1"

definition breakPatterns_func :: "(uint64 \<Rightarrow> uint64) \<Rightarrow> 'a list \<Rightarrow> int \<Rightarrow> int \<Rightarrow> 'a list" where
  "breakPatterns_func next data a b =
     (let n = b - a
      in if n \<ge> 8 then
           (let random = (word_of_int n :: uint64);
                modulus = nextPowerOfTwo n;
                idx = a + (n div 4) * 2 - 1
            in fst (fold (\<lambda>i (data, random).
                     let random = next random;
                         other = uint (random AND (modulus - 1));
                         other = (if other \<ge> n then other - n else other)
                     in (Swap data (idx - 1 + i) (a + other), random))
                  [0, 1, 2] (data, random)))
         else data)"

text \<open>
  \<^verbatim>\<open>pdqsort_func\<close> sorts \<^verbatim>\<open>data[a:b]\<close>. \<open>pdqsort_head\<close> is the part of the loop body between
  the two early returns and the partition: it returns the slice, \<open>limit\<close>, the pivot and
  whether \<^verbatim>\<open>partialInsertionSort_func\<close> has found the slice sorted. \<open>wasBalanced\<close> and
  \<open>wasPartitioned\<close> are the two variables of the loop, \<open>True\<close> at each call.
\<close>

definition pdqsort_head ::
  "(uint64 \<Rightarrow> uint64) \<Rightarrow> ('a \<Rightarrow> 'a \<Rightarrow> bool) \<Rightarrow> 'a list \<Rightarrow> int \<Rightarrow> int \<Rightarrow> int \<Rightarrow> bool \<Rightarrow> bool
     \<Rightarrow> 'a list \<times> int \<times> int \<times> bool" where
  "pdqsort_head next cmp data a b limit wasBalanced wasPartitioned =
     (let (data, limit) =
            (if \<not> wasBalanced then (breakPatterns_func next data a b, limit - 1)
             else (data, limit));
          (pivot, hint) = choosePivot_func cmp data a b;
          (data, pivot, hint) =
            (if hint = decreasingHint
             then (reverseRange_func data a b, (b - 1) - (pivot - a), increasingHint)
             else (data, pivot, hint))
      in if wasBalanced \<and> wasPartitioned \<and> hint = increasingHint
         then (case partialInsertionSort_func cmp data a b of
                 (data, done) \<Rightarrow> (data, limit, pivot, done))
         else (data, limit, pivot, False))"

lemma scan_up_le: "i \<le> j + 1 \<Longrightarrow> scan_up p i j \<le> j + 1"
proof (induction p i j rule: scan_up.induct)
  case (1 p i j)
  show ?case
  proof (cases "i \<le> j \<and> p i")
    case True
    with 1 show ?thesis by (simp add: scan_up_step)
  next
    case False
    with "1.prems" show ?thesis by (simp add: scan_up_end)
  qed
qed

lemma scan_down_ge: "i \<le> j + 1 \<Longrightarrow> i - 1 \<le> scan_down p i j"
proof (induction p i j rule: scan_down.induct)
  case (1 p i j)
  show ?case
  proof (cases "i \<le> j \<and> p j")
    case True
    with 1 show ?thesis by (simp add: scan_down_step)
  next
    case False
    with "1.prems" show ?thesis by (simp add: scan_down_end)
  qed
qed

lemma scan_up_stop: "scan_up p i j \<le> j \<Longrightarrow> \<not> p (scan_up p i j)"
proof (induction p i j rule: scan_up.induct)
  case (1 p i j)
  show ?case
  proof (cases "i \<le> j \<and> p i")
    case True
    with 1 show ?thesis by (simp add: scan_up_step)
  next
    case False
    with "1.prems" show ?thesis by (simp add: scan_up_end)
  qed
qed

lemma scan_down_stop: "i \<le> scan_down p i j \<Longrightarrow> \<not> p (scan_down p i j)"
proof (induction p i j rule: scan_down.induct)
  case (1 p i j)
  show ?case
  proof (cases "i \<le> j \<and> p j")
    case True
    with 1 show ?thesis by (simp add: scan_down_step)
  next
    case False
    with "1.prems" show ?thesis by (simp add: scan_down_end)
  qed
qed

lemma scans_apart:
  assumes "\<not> scan_down (\<lambda>j. \<not> p j) (scan_up p i j) j < scan_up p i j"
  shows "scan_up p i j < scan_down (\<lambda>j. \<not> p j) (scan_up p i j) j"
proof -
  let ?i = "scan_up p i j"
  let ?j = "scan_down (\<lambda>j. \<not> p j) ?i j"
  from assms have le: "?i \<le> ?j" by simp
  with scan_down_le [of "\<lambda>j. \<not> p j" ?i j] have "?i \<le> j" by simp
  then have "\<not> p ?i" by (rule scan_up_stop)
  moreover from le have "p ?j" using scan_down_stop [of ?i "\<lambda>j. \<not> p j" j] by simp
  ultimately have "?i \<noteq> ?j" by metis
  with le show ?thesis by simp
qed

lemma partitionEqual_loop_ge: "i \<le> snd (partitionEqual_loop cmp data a i j)"
proof (induction cmp data a i j rule: partitionEqual_loop.induct)
  case (1 cmp data a i j)
  let ?i = "scan_up (\<lambda>i. \<not> Less cmp data a i) i j"
  let ?j = "scan_down (\<lambda>j. Less cmp data a j) ?i j"
  have i: "i \<le> ?i" by (rule scan_up_ge)
  show ?case
  proof (cases "?i > ?j")
    case True
    then show ?thesis using i by (subst partitionEqual_loop.simps) (simp add: Let_def)
  next
    case False
    with "1.IH" [OF refl refl] have "?i + 1 \<le> snd (partitionEqual_loop cmp (Swap data ?i ?j) a (?i + 1) (?j - 1))"
      by simp
    with False i show ?thesis by (subst partitionEqual_loop.simps) (simp add: Let_def)
  qed
qed

lemma partitionEqual_func_gt: "a < snd (partitionEqual_func cmp data a b pivot)"
  using partitionEqual_loop_ge [of "a + 1" cmp "Swap data a pivot" a "b - 1"]
  by (simp add: partitionEqual_func_def Let_def)

lemma partition_loop_bounds:
  "i \<le> j + 1 \<Longrightarrow> i - 1 \<le> snd (partition_loop cmp data a i j) \<and> snd (partition_loop cmp data a i j) \<le> j"
proof (induction cmp data a i j rule: partition_loop.induct)
  case (1 cmp data a i j)
  let ?i = "scan_up (\<lambda>i. Less cmp data i a) i j"
  let ?j = "scan_down (\<lambda>j. \<not> Less cmp data j a) ?i j"
  have i: "i \<le> ?i" "?i \<le> j + 1" using "1.prems" by (simp_all add: scan_up_ge scan_up_le)
  have j: "?j \<le> j" "?i - 1 \<le> ?j" using i(2) by (simp_all add: scan_down_le scan_down_ge)
  show ?case
  proof (cases "?i > ?j")
    case True
    then show ?thesis using i j by (subst (1 2) partition_loop.simps) (simp add: Let_def)
  next
    case False
    from scans_apart [of "\<lambda>i. Less cmp data i a" i j] False
    have "?i + 1 \<le> ?j - 1 + 1" by simp
    from "1.IH" [OF refl refl _ this] False
    have "?i \<le> snd (partition_loop cmp (Swap data ?i ?j) a (?i + 1) (?j - 1))"
      "snd (partition_loop cmp (Swap data ?i ?j) a (?i + 1) (?j - 1)) \<le> ?j - 1"
      by simp_all
    with False i j show ?thesis by (subst (1 2) partition_loop.simps) (simp add: Let_def)
  qed
qed

lemma partition_func_bounds:
  assumes "a < b"
  shows "a \<le> fst (snd (partition_func cmp data a b pivot))"
    and "fst (snd (partition_func cmp data a b pivot)) < b"
proof -
  let ?d = "Swap data a pivot"
  let ?i = "scan_up (\<lambda>i. Less cmp ?d i a) (a + 1) (b - 1)"
  let ?j = "scan_down (\<lambda>j. \<not> Less cmp ?d j a) ?i (b - 1)"
  have i: "a + 1 \<le> ?i" "?i \<le> b" using assms scan_up_le [of "a + 1" "b - 1"] by (simp_all add: scan_up_ge)
  have j: "?j < b" "?i - 1 \<le> ?j"
    using i(2) scan_down_ge [of ?i "b - 1" "\<lambda>j. \<not> Less cmp ?d j a"]
      scan_down_le [of "\<lambda>j. \<not> Less cmp ?d j a" ?i "b - 1"] by simp_all
  have "a \<le> fst (snd (partition_func cmp data a b pivot)) \<and> fst (snd (partition_func cmp data a b pivot)) < b"
  proof (cases "?i > ?j")
    case True
    then show ?thesis using i j by (simp add: partition_func_def Let_def)
  next
    case False
    from scans_apart [of "\<lambda>i. Less cmp ?d i a" "a + 1" "b - 1"] False
    have "?i + 1 \<le> ?j - 1 + 1" by simp
    from partition_loop_bounds [OF this, of cmp "Swap ?d ?i ?j" a] False i j
    show ?thesis by (simp add: partition_func_def Let_def case_prod_beta)
  qed
  then show "a \<le> fst (snd (partition_func cmp data a b pivot))"
    and "fst (snd (partition_func cmp data a b pivot)) < b" by simp_all
qed

lemma partitionEqual_mid: "(data', mid) = partitionEqual_func cmp data a b pivot \<Longrightarrow> a < mid"
  using partitionEqual_func_gt [of a cmp data b pivot] by (metis snd_conv)

lemma partition_mid:
  "(data', y) = partition_func cmp data a b pivot \<Longrightarrow> (mid, alreadyPartitioned) = y \<Longrightarrow> a < b \<longrightarrow> a \<le> mid \<and> mid < b"
  using partition_func_bounds [of a b cmp data pivot] by (metis fst_conv snd_conv)

function pdqsort_func ::
  "(uint64 \<Rightarrow> uint64) \<Rightarrow> ('a \<Rightarrow> 'a \<Rightarrow> bool) \<Rightarrow> 'a list \<Rightarrow> int \<Rightarrow> int \<Rightarrow> int \<Rightarrow> bool \<Rightarrow> bool \<Rightarrow> 'a list" where
  "pdqsort_func next cmp data a b limit wasBalanced wasPartitioned =
     (if b - a \<le> 12 then insertionSort_func cmp data a b
      else if limit = 0 then heapSort_func cmp data a b
      else
        (case pdqsort_head next cmp data a b limit wasBalanced wasPartitioned of
           (data, limit, pivot, done) \<Rightarrow>
             if done then data
             else if a > 0 \<and> \<not> Less cmp data (a - 1) pivot then
               (case partitionEqual_func cmp data a b pivot of
                  (data, mid) \<Rightarrow> pdqsort_func next cmp data mid b limit wasBalanced wasPartitioned)
             else
               (case partition_func cmp data a b pivot of
                  (data, mid, alreadyPartitioned) \<Rightarrow>
                    if mid - a < b - mid
                    then pdqsort_func next cmp (pdqsort_func next cmp data a mid limit True True)
                           (mid + 1) b limit (mid - a \<ge> (b - a) div 8) alreadyPartitioned
                    else pdqsort_func next cmp (pdqsort_func next cmp data (mid + 1) b limit True True)
                           a mid limit (b - mid \<ge> (b - a) div 8) alreadyPartitioned)))"
  by pat_completeness auto

termination
proof (relation "measure (\<lambda>(next, cmp, data, a, b, limit, wasBalanced, wasPartitioned). nat (b - a))",
    goal_cases)
  case 1
  show ?case by simp
next
  case prems: 2
  from partitionEqual_mid [OF prems(8)] prems(1) show ?case by simp
next
  case prems: 3
  from partition_mid [OF prems(8) prems(9)] prems(1) show ?case by simp
next
  case prems: 4
  from partition_mid [OF prems(8) prems(9)] prems(1) show ?case by simp
next
  case prems: 5
  from partition_mid [OF prems(8) prems(9)] prems(1) show ?case by simp
next
  case prems: 6
  from partition_mid [OF prems(8) prems(9)] prems(1) show ?case by simp
qed

declare pdqsort_func.simps [simp del]

text \<open>\<^verbatim>\<open>Slice\<close>: the limit is \<^verbatim>\<open>bits.Len(uint(length))\<close>.\<close>

definition Slice :: "(uint64 \<Rightarrow> uint64) \<Rightarrow> ('a \<Rightarrow> 'a \<Rightarrow> bool) \<Rightarrow> 'a list \<Rightarrow> 'a list" where
  "Slice next cmp x =
     (let n = int (length x);
          limit = int (bits_Len (nat n))
      in pdqsort_func next cmp x 0 n limit True True)"

section \<open>The program\<close>

subsection \<open>Data\<close>

text \<open>
  \<^verbatim>\<open>localStringInfo\<close> (a string and its offset within the scanned buffer) and
  \<^verbatim>\<open>StringInfo\<close> (the same two fields with an absolute address, and the section).
\<close>

record localStringInfo =
  Value :: string
  Address :: uint64

record StringInfo = localStringInfo +
  Section :: string

record StringsResult =
  Strings :: "StringInfo list"
  Count :: int

text \<open>
  The collaborator \<^verbatim>\<open>objfile.File\<close>: each of its three accessors returns a start
  address, the bytes of the section and an error (\<open>None\<close> for \<^verbatim>\<open>nil\<close>).
\<close>

datatype error = Error string

type_synonym section_data = "uint64 \<times> byte list \<times> error option"

record File =
  Text :: section_data
  RData :: section_data
  RelRData :: section_data

subsection \<open>The classifier\<close>

definition isPrintableASCII :: "byte \<Rightarrow> bool" where
  "isPrintableASCII b = (32 \<le> byte_val b \<and> byte_val b \<le> 126)"

fun isPureASCII :: "string \<Rightarrow> bool" where
  "isPureASCII [] = True"
| "isPureASCII (c # s) = (if byte_val c \<ge> 0x80 then False else isPureASCII s)"

definition common_punctuation :: string where
  "common_punctuation =
     ''.,:;!?'' @ [CHR 0x27, CHR 0x22] @ ''()[]{}-_/'' @ [CHR 0x5C] @ ''+=*&|<>@#$%^~'' @ [CHR 0x60]"

definition isCommonPunctuation :: "rune \<Rightarrow> bool" where
  "isCommonPunctuation r = (r \<in> set (map byte_val common_punctuation))"

fun all_equal_to :: "byte \<Rightarrow> string \<Rightarrow> bool" where
  "all_equal_to c0 [] = True"
| "all_equal_to c0 (c # s) = (if c \<noteq> c0 then False else all_equal_to c0 s)"

definition isRepeatedChar :: "string \<Rightarrow> bool" where
  "isRepeatedChar s = (if length s < 3 then False else all_equal_to (s ! 0) (drop 1 s))"

definition asmHints :: "string list" where
  "asmHints = [''mov'', ''jmp'', ''call'', ''ret'', ''lea'', ''add'', ''sub'', ''xor'', ''push'',
     ''pop'', ''cmp'', ''test'']"

fun has_hint :: "string \<Rightarrow> string list \<Rightarrow> bool" where
  "has_hint lower [] = False"
| "has_hint lower (h # hs) =
     (if Contains lower (h @ '' '') \<or> HasPrefix lower h then True else has_hint lower hs)"

definition is_hex_rune :: "rune \<Rightarrow> bool" where
  "is_hex_rune r = ((0x30 \<le> r \<and> r \<le> 0x39) \<or> (0x61 \<le> r \<and> r \<le> 0x66) \<or> r = 0x78)"

definition looksLikeAssemblyCode :: "unicode_tables \<Rightarrow> string \<Rightarrow> bool" where
  "looksLikeAssemblyCode T s =
     (let lower = ToLower T s in
      if has_hint lower asmHints then True
      else
        let hex = fold (\<lambda>r hex. if is_hex_rune r then hex + 1 else hex) (runes lower) (0::nat) in
        if length lower > 0 \<and> hex * 100 div length lower > 80 then True else False)"

definition is_good_rune :: "unicode_tables \<Rightarrow> rune \<Rightarrow> bool" where
  "is_good_rune T r = (IsLetter T r \<or> IsDigit T r \<or> r = 0x20 \<or> isCommonPunctuation r)"

definition isLikelyString :: "unicode_tables \<Rightarrow> string \<Rightarrow> bool" where
  "isLikelyString T s =
     (let trimmed = TrimSpace s in
      if length trimmed = 0 then False
      else if isRepeatedChar trimmed then False
      else
        let good = fold (\<lambda>r good. if is_good_rune T r then good + 1 else good) (runes trimmed) (0::nat) in
        if good * 100 div length (runes trimmed) < 70 then False
        else if looksLikeAssemblyCode T trimmed then False
        else True)"

subsection \<open>The scanners\<close>

text \<open>
  \<^verbatim>\<open>extractASCIIStrings\<close>: one pass over the indices of \<open>b\<close>; the state is the result so
  far and \<open>start\<close>, the first index of the run that is open, or \<open>-1\<close>.
\<close>

text \<open>
  \<open>emit\<close> is the block that closes a run, at its two places in the source: \<open>i\<close> is the index
  after the run (\<^verbatim>\<open>len(b)\<close> after the loop).
\<close>

definition emit :: "unicode_tables \<Rightarrow> byte list \<Rightarrow> int \<Rightarrow> int \<Rightarrow> nat \<Rightarrow> localStringInfo list
    \<Rightarrow> localStringInfo list" where
  "emit T b minLength start i res =
     (if int i - start \<ge> minLength then
        (let s = slice b (nat start) i in
         if isLikelyString T s then res @ [\<lparr>Value = s, Address = of_int start\<rparr>] else res)
      else res)"

definition ascii_step :: "unicode_tables \<Rightarrow> byte list \<Rightarrow> int \<Rightarrow> nat \<Rightarrow> localStringInfo list \<times> int
    \<Rightarrow> localStringInfo list \<times> int" where
  "ascii_step T b minLength i = (\<lambda>(res, start).
     if isPrintableASCII (b ! i) then (if start = -1 then (res, int i) else (res, start))
     else if start \<noteq> -1 then (emit T b minLength start i res, -1)
     else (res, start))"

definition extractASCIIStrings :: "unicode_tables \<Rightarrow> byte list \<Rightarrow> int \<Rightarrow> localStringInfo list" where
  "extractASCIIStrings T b minLength =
     (case fold (ascii_step T b minLength) [0..<length b] ([], -1) of
        (res, start) \<Rightarrow> if start \<noteq> -1 then emit T b minLength start (length b) res else res)"

text \<open>
  \<^verbatim>\<open>extractUTF8Strings\<close>: the inner loop extends a run from \<open>j\<close> and counts its runes,
  the outer loop starts a run at \<open>i\<close> and resumes after it.
\<close>

function utf8_run :: "byte list \<Rightarrow> nat \<Rightarrow> nat \<Rightarrow> nat \<times> nat" where
  "utf8_run b j printable =
     (if j < length b then
        (let r2 = fst (DecodeRune (drop j b)); s2 = snd (DecodeRune (drop j b)) in
         if r2 = RuneError \<and> s2 = 1 then (j, printable)
         else if r2 = 0x0A \<or> r2 = 0x0D \<or> r2 = 0x09 then (j, printable)
         else if IsControl r2 then (j, printable)
         else utf8_run b (j + s2) (printable + 1))
      else (j, printable))"
  by pat_completeness auto
termination
proof (relation "measure (\<lambda>(b, j, printable). length b - j)")
  fix b :: "byte list" and j printable :: nat and r2 s2
  assume "j < length b" and "s2 = snd (DecodeRune (drop j b))"
  moreover have "1 \<le> snd (DecodeRune (drop j b))" if "j < length b"
    using that by (intro DecodeRune_size_pos) simp
  ultimately show "((b, j + s2, printable + 1), (b, j, printable))
      \<in> measure (\<lambda>(b, j, printable). length b - j)"
    by auto
qed simp

declare utf8_run.simps [simp del]

text \<open>\<open>run_continues b j\<close>: the inner loop does not leave at \<open>j\<close>.\<close>

definition run_continues :: "byte list \<Rightarrow> nat \<Rightarrow> bool" where
  "run_continues b j =
     (j < length b \<and>
      (let r2 = fst (DecodeRune (drop j b)); s2 = snd (DecodeRune (drop j b)) in
       \<not> (r2 = RuneError \<and> s2 = 1) \<and> \<not> (r2 = 0x0A \<or> r2 = 0x0D \<or> r2 = 0x09) \<and> \<not> IsControl r2))"

lemma utf8_run_step:
  "run_continues b j \<Longrightarrow>
     utf8_run b j printable = utf8_run b (j + snd (DecodeRune (drop j b))) (printable + 1)"
  by (subst utf8_run.simps) (auto simp: run_continues_def Let_def)

lemma utf8_run_stop: "\<not> run_continues b j \<Longrightarrow> utf8_run b j printable = (j, printable)"
  by (subst utf8_run.simps) (auto simp: run_continues_def Let_def)

lemma utf8_run_ge: "j \<le> fst (utf8_run b j printable)"
proof (induction b j printable rule: utf8_run.induct)
  case (1 b j printable)
  show ?case
  proof (cases "run_continues b j")
    case True
    then have "j + snd (DecodeRune (drop j b))
        \<le> fst (utf8_run b (j + snd (DecodeRune (drop j b))) (printable + 1))"
      using 1 by (simp add: run_continues_def Let_def)
    with True show ?thesis by (simp add: utf8_run_step)
  next
    case False
    then show ?thesis by (simp add: utf8_run_stop)
  qed
qed

text \<open>
  The body of the outer loop: \<open>decode_error\<close> is the test \<^verbatim>\<open>r == utf8.RuneError && size == 1\<close>,
  \<open>utf8_emit\<close> the block \<^verbatim>\<open>if printable >= minLength { ... }\<close>, and \<open>utf8_next\<close> the new value
  of \<open>i\<close> (\<^verbatim>\<open>if j == i { i += size } else { i = j + 1 }\<close>).
\<close>

definition utf8_emit :: "unicode_tables \<Rightarrow> byte list \<Rightarrow> int \<Rightarrow> nat \<Rightarrow> nat \<Rightarrow> nat
    \<Rightarrow> localStringInfo list \<Rightarrow> localStringInfo list" where
  "utf8_emit T b minLength i j printable res =
     (if int printable \<ge> minLength then
        (let s = slice b i j in
         if \<not> isPureASCII s \<and> isLikelyString T s
         then res @ [\<lparr>Value = s, Address = of_nat i\<rparr>] else res)
      else res)"

definition decode_error :: "rune \<times> nat \<Rightarrow> bool" where
  "decode_error d = (fst d = RuneError \<and> snd d = 1)"

definition utf8_next :: "nat \<Rightarrow> nat \<Rightarrow> nat \<Rightarrow> nat" where
  "utf8_next i sz j = (if j = i then i + sz else j + 1)"

function utf8_loop :: "unicode_tables \<Rightarrow> byte list \<Rightarrow> int \<Rightarrow> nat \<Rightarrow> localStringInfo list
    \<Rightarrow> localStringInfo list" where
  "utf8_loop T b minLength i res =
     (if i < length b then
        (if decode_error (DecodeRune (drop i b))
         then utf8_loop T b minLength (i + 1) res
         else utf8_loop T b minLength
                (utf8_next i (snd (DecodeRune (drop i b))) (fst (utf8_run b i 0)))
                (utf8_emit T b minLength i (fst (utf8_run b i 0)) (snd (utf8_run b i 0)) res))
      else res)"
  by pat_completeness auto
termination
proof (relation "measure (\<lambda>(T, b, minLength, i, res). length b - i)", goal_cases)
  case 1
  show ?case by simp
next
  case (2 T b minLength i res)
  then show ?case by simp
next
  case (3 T b minLength i res)
  have "1 \<le> snd (DecodeRune (drop i b))"
    using 3 by (intro DecodeRune_size_pos) simp
  with 3 utf8_run_ge [of i b 0] show ?case by (auto simp: utf8_next_def)
qed

declare utf8_loop.simps [simp del]

definition extractUTF8Strings :: "unicode_tables \<Rightarrow> byte list \<Rightarrow> int \<Rightarrow> localStringInfo list" where
  "extractUTF8Strings T b minLength = utf8_loop T b minLength 0 []"

definition extractPrintableStrings :: "unicode_tables \<Rightarrow> byte list \<Rightarrow> int \<Rightarrow> localStringInfo list" where
  "extractPrintableStrings T b minLength =
     (let acc = [];
          acc = acc @ extractASCIIStrings T b minLength;
          acc = acc @ extractUTF8Strings T b minLength
      in acc)"

subsection \<open>Aggregation, deduplication and the entry point\<close>

text \<open>
  \<^verbatim>\<open>deduplicateStrings\<close>: \<open>seen\<close> is a Go map from the key \<^verbatim>\<open>Section + "|" + Value\<close> to
  \<^verbatim>\<open>bool\<close>, read as \<open>false\<close> where the key is absent.
\<close>

definition dedup_key :: "StringInfo \<Rightarrow> string" where
  "dedup_key s = Section s @ ''|'' @ Value s"

definition seen_get :: "(string \<rightharpoonup> bool) \<Rightarrow> string \<Rightarrow> bool" where
  "seen_get seen key = (case seen key of None \<Rightarrow> False | Some v \<Rightarrow> v)"

definition dedup_step :: "StringInfo \<Rightarrow> (string \<rightharpoonup> bool) \<times> StringInfo list
    \<Rightarrow> (string \<rightharpoonup> bool) \<times> StringInfo list" where
  "dedup_step s = (\<lambda>(seen, out).
     let key = dedup_key s in
     if \<not> seen_get seen key then (seen(key \<mapsto> True), out @ [s]) else (seen, out))"

definition deduplicateStrings :: "StringInfo list \<Rightarrow> StringInfo list" where
  "deduplicateStrings inp = snd (fold dedup_step inp (Map.empty, []))"

text \<open>
  The loop \<^verbatim>\<open>for _, s := range strs { results = append(results, StringInfo{...}) }\<close> that
  the entry point runs for each section.
\<close>

definition rebase :: "string \<Rightarrow> uint64 \<Rightarrow> localStringInfo list \<Rightarrow> StringInfo list \<Rightarrow> StringInfo list" where
  "rebase sectionName start strs results =
     fold (\<lambda>s results. results @ [\<lparr>Value = Value s, Address = start + Address s, Section = sectionName\<rparr>])
       strs results"

definition pull :: "unicode_tables \<Rightarrow> int \<Rightarrow> string \<Rightarrow> section_data \<Rightarrow> StringInfo list \<Rightarrow> StringInfo list" where
  "pull T minLength sectionName dataFn results =
     (case dataFn of (start, data, err) \<Rightarrow>
        if err \<noteq> None \<or> length data = 0 then results
        else rebase sectionName start (extractPrintableStrings T data minLength) results)"

text \<open>
  \<^verbatim>\<open>sort.Slice\<close> belongs to Go's library. Its documentation promises a slice sorted by the
  given \<open>less\<close> and says that the sort is not guaranteed to be stable. It is a parameter of
  the entry point; \<open>sort_Slice_contract\<close> is what the documentation promises for the
  comparison the program passes. The library's own function is \<open>Slice\<close> of the section on
  package sort, with the generator of \<^verbatim>\<open>breakPatterns_func\<close> as its parameter.
\<close>

type_synonym sorter = "(StringInfo \<Rightarrow> StringInfo \<Rightarrow> bool) \<Rightarrow> StringInfo list \<Rightarrow> StringInfo list"

definition address_less :: "StringInfo \<Rightarrow> StringInfo \<Rightarrow> bool" where
  "address_less a b = (Address a < Address b)"

abbreviation address_sorted :: "StringInfo list \<Rightarrow> bool" where
  "address_sorted \<equiv> sorted_wrt (\<lambda>a b. \<not> address_less b a)"

definition sort_Slice_contract :: "sorter \<Rightarrow> bool" where
  "sort_Slice_contract sort_Slice =
     (\<forall>xs. mset (sort_Slice address_less xs) = mset xs \<and> address_sorted (sort_Slice address_less xs))"

definition extractStrings :: "sorter \<Rightarrow> unicode_tables \<Rightarrow> File \<Rightarrow> int \<Rightarrow> StringsResult \<times> error option" where
  "extractStrings sort_Slice T file minLength =
     (let results = [];
          results = pull T minLength ''.text'' (Text file) results;
          results =
            (case RData file of (start, data, err) \<Rightarrow>
               if err = None \<and> length data > 0
               then rebase ''.rodata'' start (extractPrintableStrings T data minLength) results
               else results);
          results =
            (case RelRData file of (start, data, err) \<Rightarrow>
               if err = None \<and> length data > 0
               then rebase ''.data.rel.ro'' start (extractPrintableStrings T data minLength) results
               else results);
          results = deduplicateStrings results;
          results = sort_Slice address_less results
      in (\<lparr>Strings = results, Count = int (length results)\<rparr>, None))"

text \<open>
  A sorting function that meets the contract: an insertion sort that keeps equal elements
  in their order.
\<close>

fun insert_after :: "('a \<Rightarrow> 'a \<Rightarrow> bool) \<Rightarrow> 'a \<Rightarrow> 'a list \<Rightarrow> 'a list" where
  "insert_after lt x [] = [x]"
| "insert_after lt x (y # ys) = (if lt x y then x # y # ys else y # insert_after lt x ys)"

definition stable_sort :: "('a \<Rightarrow> 'a \<Rightarrow> bool) \<Rightarrow> 'a list \<Rightarrow> 'a list" where
  "stable_sort lt xs = fold (insert_after lt) xs []"

section \<open>Specification-level notions\<close>

text \<open>
  The entries of \<open>xs\<close> that are the first with their key \<open>f\<close>, in the order of \<open>xs\<close>: the
  entry at index \<open>i\<close> stays if and only if no earlier index has the same key.
\<close>

definition firsts_by :: "('a \<Rightarrow> 'k) \<Rightarrow> 'a list \<Rightarrow> 'a list" where
  "firsts_by f xs =
     map (nth xs) (filter (\<lambda>i. list_all (\<lambda>j. f (xs ! j) \<noteq> f (xs ! i)) [0..<i]) [0..<length xs])"

definition section_value :: "StringInfo \<Rightarrow> string \<times> string" where
  "section_value s = (Section s, Value s)"

text \<open>
  The entries one section contributes, and the entries the entry point has collected from
  the three sections before deduplication.
\<close>

definition section_entries :: "unicode_tables \<Rightarrow> int \<Rightarrow> string \<Rightarrow> section_data \<Rightarrow> StringInfo list" where
  "section_entries T minLength name d =
     (case d of (start, data, err) \<Rightarrow>
        if err = None \<and> data \<noteq> []
        then map (\<lambda>s. \<lparr>Value = Value s, Address = start + Address s, Section = name\<rparr>)
               (extractPrintableStrings T data minLength)
        else [])"

definition collected :: "unicode_tables \<Rightarrow> File \<Rightarrow> int \<Rightarrow> StringInfo list" where
  "collected T file minLength =
     section_entries T minLength ''.text'' (Text file)
     @ section_entries T minLength ''.rodata'' (RData file)
     @ section_entries T minLength ''.data.rel.ro'' (RelRData file)"

text \<open>
  Maximal runs of printable bytes: \<open>run_from b s e\<close> says that the bytes at \<open>s, \<dots>, e - 1\<close>
  are printable and that the run cannot be extended to the left; it is maximal when it
  cannot be extended to the right either. \<open>accepted\<close> is what the scanner asks of a run
  before it emits it, and \<open>entry\<close> is what it emits.
\<close>

definition run_from :: "byte list \<Rightarrow> nat \<Rightarrow> nat \<Rightarrow> bool" where
  "run_from b s e =
     (s < e \<and> e \<le> length b \<and> list_all isPrintableASCII (slice b s e)
      \<and> (s = 0 \<or> \<not> isPrintableASCII (b ! (s - 1))))"

definition is_max_run :: "byte list \<Rightarrow> nat \<Rightarrow> nat \<Rightarrow> bool" where
  "is_max_run b s e = (run_from b s e \<and> (e = length b \<or> \<not> isPrintableASCII (b ! e)))"

definition accepted :: "unicode_tables \<Rightarrow> byte list \<Rightarrow> int \<Rightarrow> nat \<times> nat \<Rightarrow> bool" where
  "accepted T b minLength = (\<lambda>(s, e). minLength \<le> int (e - s) \<and> isLikelyString T (slice b s e))"

definition entry :: "byte list \<Rightarrow> nat \<times> nat \<Rightarrow> localStringInfo" where
  "entry b = (\<lambda>(s, e). \<lparr>Value = slice b s e, Address = of_nat s\<rparr>)"

definition in_order :: "(nat \<times> nat) list \<Rightarrow> bool" where
  "in_order runs = sorted_wrt (\<lambda>p q. snd p < fst q) runs"

text \<open>The invariant of the loop of \<^verbatim>\<open>extractASCIIStrings\<close> before index \<open>n\<close>.\<close>

definition ascii_inv :: "unicode_tables \<Rightarrow> byte list \<Rightarrow> int \<Rightarrow> nat \<Rightarrow> localStringInfo list \<Rightarrow> int \<Rightarrow> bool" where
  "ascii_inv T b minLength n res start =
     ((if start = -1 then n = 0 \<or> \<not> isPrintableASCII (b ! (n - 1))
       else 0 \<le> start \<and> run_from b (nat start) n)
      \<and> (\<exists>runs. res = map (entry b) runs \<and> in_order runs
            \<and> set runs = {(s, e). e < n \<and> is_max_run b s e \<and> accepted T b minLength (s, e)}))"

text \<open>What the UTF-8 scanner emits for a run that starts at \<open>k\<close>.\<close>

definition utf8_candidate :: "unicode_tables \<Rightarrow> byte list \<Rightarrow> int \<Rightarrow> nat \<Rightarrow> localStringInfo \<Rightarrow> bool" where
  "utf8_candidate T b m k u =
     (k < length b \<and> m \<le> int (snd (utf8_run b k 0))
      \<and> u = \<lparr>Value = slice b k (fst (utf8_run b k 0)), Address = of_nat k\<rparr>
      \<and> \<not> isPureASCII (Value u) \<and> isLikelyString T (Value u))"

section \<open>Example inputs\<close>

definition dup_input :: "StringInfo list" where
  "dup_input =
     [\<lparr>Value = ''hello'', Address = 0x10, Section = ''.text''\<rparr>,
      \<lparr>Value = ''hello'', Address = 0x20, Section = ''.rodata''\<rparr>,
      \<lparr>Value = ''hello'', Address = 0x30, Section = ''.text''\<rparr>,
      \<lparr>Value = ''world'', Address = 0x40, Section = ''.text''\<rparr>,
      \<lparr>Value = ''hello'', Address = 0x50, Section = ''.rodata''\<rparr>]"


definition utf8_buffer :: "byte list" where
  "utf8_buffer = ''Hello w'' @ [CHR 0xC3, CHR 0xB6] @ ''rld''"


definition comp70 :: string where
  "comp70 = ''Hello w'' @ [CHR 0x01, CHR 0x02, CHR 0x03]"

definition comp69 :: string where
  "comp69 = ''Hello wor'' @ [CHR 0x01, CHR 0x02, CHR 0x03, CHR 0x04]"

definition e_acute3 :: string where
  "e_acute3 = [CHR 0xC3, CHR 0xA9, CHR 0xC3, CHR 0xA9, CHR 0xC3, CHR 0xA9]"

definition hex17of21 :: string where
  "hex17of21 = ''00000000000000000zzzz''"

text \<open>The scenario of the specification: two runs between zero bytes.\<close>

definition scenario :: "byte list" where
  "scenario = [CHR 0x00, CHR 0x00] @ ''Hello, world!'' @ [CHR 0x00, CHR 0x00] @ ''mov eax, 1''
     @ [CHR 0x00, CHR 0x00]"

text \<open>Object files for the examples.\<close>

definition tie_file :: File where
  "tie_file =
     \<lparr>Text = (0x1000, utf8_buffer, None), RData = (0, [], None),
      RelRData = (0, [], Some (Error ''no such section''))\<rparr>"

definition sections_file :: File where
  "sections_file =
     \<lparr>Text = (0x2000, ''Hello, world!'', None), RData = (0x1000, scenario, None),
      RelRData = (0x3000, [CHR 0x00], None)\<rparr>"

definition dup_file :: File where
  "dup_file =
     \<lparr>Text = (0x2000, ''Hello, world!'' @ [CHR 0x00] @ ''Hello, world!'', None),
      RData = (0x1000, ''Hello, world!'', None),
      RelRData = (0, [], Some (Error ''no such section''))\<rparr>"

definition skipped_file :: File where
  "skipped_file =
     \<lparr>Text = (0x1000, [], None), RData = (0x2000, ''Hello, world!'', Some (Error ''read error'')),
      RelRData = (0x3000, [CHR 0x00, CHR 0x00], None)\<rparr>"

definition wrap_data :: "byte list" where
  "wrap_data = [CHR 0x00, CHR 0x00, CHR 0x00, CHR 0x00] @ ''Hello, world!''"

text \<open>
  A text section with thirteen strings: \<open>utf8_buffer\<close>, whose first seven bytes are a
  printable run, and eleven words, between zero bytes.
\<close>

definition ties_buffer :: "byte list" where
  "ties_buffer = utf8_buffer @ [CHR 0x00] @ ''runtime'' @ [CHR 0x00] @ ''golang'' @ [CHR 0x00]
     @ ''string'' @ [CHR 0x00] @ ''buffer'' @ [CHR 0x00] @ ''handle'' @ [CHR 0x00] @ ''kernel''
     @ [CHR 0x00] @ ''module'' @ [CHR 0x00] @ ''object'' @ [CHR 0x00] @ ''printf'' @ [CHR 0x00]
     @ ''socket'' @ [CHR 0x00] @ ''thread''"

definition ties_file :: File where
  "ties_file =
     \<lparr>Text = (0x1000, ties_buffer, None), RData = (0, [], None),
      RelRData = (0, [], Some (Error ''no such section''))\<rparr>"

text \<open>
  The entries of \<open>ties_file\<close> in the order of their discovery, which deduplication keeps,
  and what \<open>Slice\<close> makes of them, whatever the generator: the thirteen entries are
  partitioned once around \<open>kernel\<close> and the two parts are sorted by insertion.
\<close>

definition ties_entries :: "StringInfo list" where
  "ties_entries =
     [\<lparr>Value = ''Hello w'', Address = 0x1000, Section = ''.text''\<rparr>,
     \<lparr>Value = ''runtime'', Address = 0x100D, Section = ''.text''\<rparr>,
     \<lparr>Value = ''golang'', Address = 0x1015, Section = ''.text''\<rparr>,
     \<lparr>Value = ''string'', Address = 0x101C, Section = ''.text''\<rparr>,
     \<lparr>Value = ''buffer'', Address = 0x1023, Section = ''.text''\<rparr>,
     \<lparr>Value = ''handle'', Address = 0x102A, Section = ''.text''\<rparr>,
     \<lparr>Value = ''kernel'', Address = 0x1031, Section = ''.text''\<rparr>,
     \<lparr>Value = ''module'', Address = 0x1038, Section = ''.text''\<rparr>,
     \<lparr>Value = ''object'', Address = 0x103F, Section = ''.text''\<rparr>,
     \<lparr>Value = ''printf'', Address = 0x1046, Section = ''.text''\<rparr>,
     \<lparr>Value = ''socket'', Address = 0x104D, Section = ''.text''\<rparr>,
     \<lparr>Value = ''thread'', Address = 0x1054, Section = ''.text''\<rparr>,
     \<lparr>Value = utf8_buffer, Address = 0x1000, Section = ''.text''\<rparr>]"

text \<open>A generator for \<open>Slice\<close>: the 64-bit xorshift with the shifts 13, 7 and 17.\<close>

definition xorshift_Next :: "uint64 \<Rightarrow> uint64" where
  "xorshift_Next r =
     (let r = r XOR push_bit 13 r;
          r = r XOR drop_bit 7 r;
          r = r XOR push_bit 17 r
      in r)"

section \<open>Deduplication\<close>

lemma rebase_eq:
  "rebase name start strs results =
     results @ map (\<lambda>s. \<lparr>Value = Value s, Address = start + Address s, Section = name\<rparr>) strs"
  unfolding rebase_def by (induction strs arbitrary: results) simp_all

lemma pull_eq: "pull T minLength name d results = results @ section_entries T minLength name d"
  by (cases d) (simp add: pull_def section_entries_def rebase_eq)

lemma inline_pull_eq:
  "(case d of (start, data, err) \<Rightarrow>
      if err = None \<and> length data > 0
      then rebase name start (extractPrintableStrings T data minLength) results
      else results) = results @ section_entries T minLength name d"
  by (cases d) (simp add: section_entries_def rebase_eq)

lemma extractStrings_eq:
  "extractStrings sort_Slice T file minLength =
     (\<lparr>Strings = sort_Slice address_less (deduplicateStrings (collected T file minLength)),
       Count = int (length (sort_Slice address_less (deduplicateStrings (collected T file minLength))))\<rparr>,
      None)"
  unfolding extractStrings_def Let_def pull_eq inline_pull_eq collected_def by simp

lemma firsts_by_snoc:
  "firsts_by f (xs @ [x]) = firsts_by f xs @ (if f x \<in> f ` set xs then [] else [x])"
proof -
  let ?P = "\<lambda>ys i. list_all (\<lambda>j. f (ys ! j) \<noteq> f (ys ! i)) [0..<i]"
  have old: "?P (xs @ [x]) i = ?P xs i" if "i < length xs" for i
    using that by (auto simp: list_all_iff nth_append)
  have last: "?P (xs @ [x]) (length xs) \<longleftrightarrow> f x \<notin> f ` set xs"
  proof -
    have "?P (xs @ [x]) (length xs) \<longleftrightarrow> (\<forall>j<length xs. f (xs ! j) \<noteq> f x)"
      by (auto simp: list_all_iff nth_append)
    also have "\<dots> \<longleftrightarrow> f x \<notin> f ` set xs"
    proof
      assume A: "\<forall>j<length xs. f (xs ! j) \<noteq> f x"
      show "f x \<notin> f ` set xs"
      proof
        assume "f x \<in> f ` set xs"
        then obtain y where "y \<in> set xs" "f x = f y" by auto
        then obtain j where "j < length xs" "xs ! j = y" by (auto simp: in_set_conv_nth)
        with A \<open>f x = f y\<close> show False by auto
      qed
    next
      assume B: "f x \<notin> f ` set xs"
      show "\<forall>j<length xs. f (xs ! j) \<noteq> f x"
      proof (intro allI impI)
        fix j assume "j < length xs"
        then have "xs ! j \<in> set xs" by simp
        with B show "f (xs ! j) \<noteq> f x" by (metis image_eqI)
      qed
    qed
    finally show ?thesis .
  qed
  have "filter (?P (xs @ [x])) [0..<length xs] = filter (?P xs) [0..<length xs]"
    by (rule filter_cong) (simp_all add: old)
  moreover have "map (nth (xs @ [x])) (filter (?P xs) [0..<length xs])
      = map (nth xs) (filter (?P xs) [0..<length xs])"
    by (rule map_cong) (auto simp: nth_append)
  ultimately show ?thesis
    using last by (simp add: firsts_by_def)
qed

lemma firsts_by_Nil: "firsts_by f [] = []"
  by (simp add: firsts_by_def)

lemma set_firsts_by: "set (firsts_by f xs) \<subseteq> set xs"
  by (auto simp: firsts_by_def)

lemma distinct_firsts_by: "distinct (map f (firsts_by f xs))"
proof (induction xs rule: rev_induct)
  case Nil
  show ?case by (simp add: firsts_by_Nil)
next
  case (snoc x xs)
  then show ?case
    using set_firsts_by [of f xs] by (auto simp: firsts_by_snoc)
qed

lemma image_set_firsts_by: "f ` set (firsts_by f xs) = f ` set xs"
proof (induction xs rule: rev_induct)
  case Nil
  show ?case by (simp add: firsts_by_Nil)
next
  case (snoc x xs)
  then show ?case by (auto simp: firsts_by_snoc)
qed

lemma firsts_by_cong:
  assumes "\<And>x y. x \<in> set xs \<Longrightarrow> y \<in> set xs \<Longrightarrow> f x = f y \<longleftrightarrow> g x = g y"
  shows "firsts_by f xs = firsts_by g xs"
  using assms
proof (induction xs rule: rev_induct)
  case Nil
  show ?case by (simp add: firsts_by_Nil)
next
  case (snoc x xs)
  have "firsts_by f xs = firsts_by g xs"
    by (rule snoc.IH) (simp add: snoc.prems)
  moreover have "f x \<in> f ` set xs \<longleftrightarrow> g x \<in> g ` set xs"
    using snoc.prems by (auto simp: image_iff)
  ultimately show ?case by (simp add: firsts_by_snoc)
qed

lemma dedup_fold:
  "fold dedup_step xs (Map.empty, []) = (seen, out) \<Longrightarrow>
     (\<forall>k. seen_get seen k \<longleftrightarrow> k \<in> dedup_key ` set xs) \<and> out = firsts_by dedup_key xs"
proof (induction xs arbitrary: seen out rule: rev_induct)
  case Nil
  then show ?case by (auto simp: seen_get_def firsts_by_Nil)
next
  case (snoc x xs)
  obtain seen0 out0 where f: "fold dedup_step xs (Map.empty, []) = (seen0, out0)"
    by (cases "fold dedup_step xs (Map.empty, [])")
  from snoc.IH [OF f]
  have seen0: "\<And>k. seen_get seen0 k \<longleftrightarrow> k \<in> dedup_key ` set xs"
    and out0: "out0 = firsts_by dedup_key xs" by simp_all
  from snoc.prems f have step: "dedup_step x (seen0, out0) = (seen, out)" by simp
  show ?case
  proof (cases "dedup_key x \<in> dedup_key ` set xs")
    case True
    with step seen0 have "seen = seen0" "out = out0"
      by (simp_all add: dedup_step_def Let_def)
    with True seen0 out0 show ?thesis by (auto simp: firsts_by_snoc)
  next
    case False
    with step seen0 have "seen = seen0(dedup_key x \<mapsto> True)" "out = out0 @ [x]"
      by (simp_all add: dedup_step_def Let_def)
    with False seen0 out0 show ?thesis
      by (auto simp: firsts_by_snoc seen_get_def)
  qed
qed

lemma deduplicateStrings_firsts: "deduplicateStrings xs = firsts_by dedup_key xs"
  using dedup_fold [of xs "fst (fold dedup_step xs (Map.empty, []))"
      "snd (fold dedup_step xs (Map.empty, []))"]
  by (simp add: deduplicateStrings_def)

lemma append_bar_inj:
  fixes a b u v :: string
  shows "a @ CHR ''|'' # u = b @ CHR ''|'' # v \<Longrightarrow> CHR ''|'' \<notin> set a \<Longrightarrow> CHR ''|'' \<notin> set b
    \<Longrightarrow> a = b \<and> u = v"
proof (induction a arbitrary: b)
  case Nil
  then show ?case by (cases b) auto
next
  case (Cons c a)
  then show ?case by (cases b) auto
qed

lemma dedup_key_inj:
  assumes "CHR ''|'' \<notin> set (Section x)" and "CHR ''|'' \<notin> set (Section y)"
  shows "dedup_key x = dedup_key y \<longleftrightarrow> section_value x = section_value y"
proof
  assume "dedup_key x = dedup_key y"
  then have "Section x @ CHR ''|'' # Value x = Section y @ CHR ''|'' # Value y"
    by (simp add: dedup_key_def)
  from append_bar_inj [OF this assms] show "section_value x = section_value y"
    by (simp add: section_value_def)
next
  assume "section_value x = section_value y"
  then show "dedup_key x = dedup_key y"
    by (simp add: dedup_key_def section_value_def)
qed

lemma distinct_section_value_dedup: "distinct (map section_value (deduplicateStrings xs))"
proof -
  have "distinct (map dedup_key (deduplicateStrings xs))"
    by (simp add: deduplicateStrings_firsts distinct_firsts_by)
  then have "distinct (deduplicateStrings xs)" "inj_on dedup_key (set (deduplicateStrings xs))"
    by (simp_all add: distinct_map)
  moreover from this(2) have "inj_on section_value (set (deduplicateStrings xs))"
    by (auto simp: inj_on_def dedup_key_def section_value_def)
  ultimately show ?thesis by (simp add: distinct_map)
qed

lemma section_entries_Section: "s \<in> set (section_entries T minLength name d) \<Longrightarrow> Section s = name"
  by (cases d) (auto simp: section_entries_def split: if_splits)

lemma collected_Section:
  "s \<in> set (collected T file minLength) \<Longrightarrow> Section s \<in> {''.text'', ''.rodata'', ''.data.rel.ro''}"
  unfolding collected_def by (auto dest: section_entries_Section)


section \<open>A sorting function that meets the contract\<close>

lemma mset_insert_after: "mset (insert_after lt x ys) = add_mset x (mset ys)"
  by (induction ys) simp_all

lemma mset_fold_insert_after: "mset (fold (insert_after lt) xs acc) = mset xs + mset acc"
  by (induction xs arbitrary: acc) (simp_all add: mset_insert_after)

lemma set_insert_after: "set (insert_after lt x ys) = insert x (set ys)"
  by (induction ys) auto

lemma sorted_insert_after:
  "address_sorted ys \<Longrightarrow> address_sorted (insert_after address_less x ys)"
  by (induction ys) (auto simp: set_insert_after address_less_def)

lemma sorted_fold_insert_after:
  "address_sorted acc \<Longrightarrow> address_sorted (fold (insert_after address_less) xs acc)"
  by (induction xs arbitrary: acc) (simp_all add: sorted_insert_after)

lemma stable_sort_contract: "sort_Slice_contract stable_sort"
  by (simp add: sort_Slice_contract_def stable_sort_def mset_fold_insert_after
      sorted_fold_insert_after)

lemma contract_mset: "sort_Slice_contract srt \<Longrightarrow> mset (srt address_less xs) = mset xs"
  by (simp add: sort_Slice_contract_def)

lemma contract_set: "sort_Slice_contract srt \<Longrightarrow> set (srt address_less xs) = set xs"
  by (metis contract_mset set_mset_mset)

lemma contract_sorted: "sort_Slice_contract srt \<Longrightarrow> address_sorted (srt address_less xs)"
  by (simp add: sort_Slice_contract_def)

section \<open>The ASCII scanner\<close>

lemma slice_length: "e \<le> length b \<Longrightarrow> length (slice b s e) = e - s"
  by (simp add: slice_def)

lemma slice_nth: "e \<le> length b \<Longrightarrow> k < e - s \<Longrightarrow> slice b s e ! k = b ! (s + k)"
  by (simp add: slice_def)

lemma list_all_slice:
  assumes "e \<le> length b"
  shows "list_all P (slice b s e) \<longleftrightarrow> (\<forall>k. s \<le> k \<and> k < e \<longrightarrow> P (b ! k))"
proof
  assume L: "list_all P (slice b s e)"
  show "\<forall>k. s \<le> k \<and> k < e \<longrightarrow> P (b ! k)"
  proof (intro allI impI)
    fix k assume k: "s \<le> k \<and> k < e"
    then have "k - s < length (slice b s e)"
      using assms by (auto simp: slice_length intro: diff_less_mono)
    with L have "P (slice b s e ! (k - s))" by (simp add: list_all_length)
    moreover have "slice b s e ! (k - s) = b ! (s + (k - s))"
      using k assms by (intro slice_nth) (auto intro: diff_less_mono)
    ultimately show "P (b ! k)" using k by simp
  qed
next
  assume R: "\<forall>k. s \<le> k \<and> k < e \<longrightarrow> P (b ! k)"
  show "list_all P (slice b s e)"
    unfolding list_all_length
  proof (intro allI impI)
    fix n assume "n < length (slice b s e)"
    then have n: "n < e - s" using assms by (simp add: slice_length)
    with R have "P (b ! (s + n))" by simp
    with n assms show "P (slice b s e ! n)" by (simp add: slice_nth)
  qed
qed

lemma run_from_iff:
  "run_from b s e \<longleftrightarrow>
     s < e \<and> e \<le> length b \<and> (\<forall>k. s \<le> k \<and> k < e \<longrightarrow> isPrintableASCII (b ! k))
     \<and> (s = 0 \<or> \<not> isPrintableASCII (b ! (s - 1)))"
  by (auto simp: run_from_def list_all_slice)

lemma run_from_start:
  "n < length b \<Longrightarrow> isPrintableASCII (b ! n) \<Longrightarrow> n = 0 \<or> \<not> isPrintableASCII (b ! (n - 1))
     \<Longrightarrow> run_from b n (Suc n)"
  by (auto simp: run_from_iff le_less_Suc_eq)

lemma run_from_extend:
  "run_from b s n \<Longrightarrow> n < length b \<Longrightarrow> isPrintableASCII (b ! n) \<Longrightarrow> run_from b s (Suc n)"
  by (auto simp: run_from_iff less_Suc_eq)

lemma run_from_last: "run_from b s e \<Longrightarrow> 0 < e \<and> isPrintableASCII (b ! (e - 1))"
  by (auto simp: run_from_iff)

lemma run_from_unique:
  assumes "run_from b s e" and "run_from b s' e"
  shows "s = s'"
proof -
  have no: False if r: "run_from b u e" and r': "run_from b u' e" and lt: "u < u'" for u u'
  proof -
    from r have A: "\<And>k. u \<le> k \<Longrightarrow> k < e \<Longrightarrow> isPrintableASCII (b ! k)"
      by (simp add: run_from_iff)
    from r' lt have "\<not> isPrintableASCII (b ! (u' - 1))" and "u' < e"
      by (auto simp: run_from_iff)
    moreover have "isPrintableASCII (b ! (u' - 1))"
      using lt \<open>u' < e\<close> by (intro A) auto
    ultimately show False by simp
  qed
  show ?thesis
    using no [OF assms] no [OF assms(2) assms(1)] by (cases s s' rule: linorder_cases) auto
qed

lemma emit_eq:
  assumes "0 \<le> start" and "nat start < n"
  shows "emit T b m start n res =
    (if accepted T b m (nat start, n) then res @ [entry b (nat start, n)] else res)"
proof -
  from assms have "int n - start = int (n - nat start)" by simp
  moreover from assms have "(of_int start :: uint64) = of_nat (nat start)" by simp
  ultimately show ?thesis
    by (simp add: emit_def accepted_def entry_def Let_def del: of_nat_nat)
qed

lemma close_run:
  assumes inv: "ascii_inv T b m n res start" and n: "n \<le> length b"
    and stop: "n = length b \<or> \<not> isPrintableASCII (b ! n)"
  shows "\<exists>runs. (if start \<noteq> -1 then emit T b m start n res else res) = map (entry b) runs
      \<and> in_order runs
      \<and> set runs = {(s, e). e \<le> n \<and> is_max_run b s e \<and> accepted T b m (s, e)}"
proof -
  from inv obtain runs where res: "res = map (entry b) runs" and ord: "in_order runs"
    and runs: "set runs = {(s, e). e < n \<and> is_max_run b s e \<and> accepted T b m (s, e)}"
    by (auto simp: ascii_inv_def)
  show ?thesis
  proof (cases "start = -1")
    case True
    with inv have last: "n = 0 \<or> \<not> isPrintableASCII (b ! (n - 1))"
      by (simp add: ascii_inv_def)
    have "\<not> is_max_run b s n" for s
      using last run_from_last [of b s n] by (auto simp: is_max_run_def)
    then have "{(s, e). e \<le> n \<and> is_max_run b s e \<and> accepted T b m (s, e)} = set runs"
      unfolding runs by (auto simp: le_less)
    with True res ord show ?thesis by auto
  next
    case False
    with inv have s0: "0 \<le> start" and rf: "run_from b (nat start) n"
      by (simp_all add: ascii_inv_def)
    let ?s = "nat start"
    from rf have lt: "?s < n" by (simp add: run_from_iff)
    have max: "is_max_run b ?s n" using rf stop by (simp add: is_max_run_def)
    have split: "(e \<le> n \<and> is_max_run b s e \<and> accepted T b m (s, e)) \<longleftrightarrow>
        (e < n \<and> is_max_run b s e \<and> accepted T b m (s, e))
        \<or> ((s, e) = (?s, n) \<and> accepted T b m (?s, n))" for s e
    proof (cases "e = n")
      case True
      have "s = ?s" if "is_max_run b s n"
        using that rf by (auto simp: is_max_run_def intro: run_from_unique)
      with True max show ?thesis by auto
    next
      case False
      then show ?thesis by auto
    qed
    have all: "{(s, e). e \<le> n \<and> is_max_run b s e \<and> accepted T b m (s, e)}
        = set runs \<union> (if accepted T b m (?s, n) then {(?s, n)} else {})"
      unfolding runs by (auto simp: split)
    have before: "snd p < ?s" if "p \<in> set runs" for p
    proof -
      obtain s e where p: "p = (s, e)" by (cases p)
      with that runs have e: "e < n" and m: "is_max_run b s e" by auto
      with n have "\<not> isPrintableASCII (b ! e)" by (auto simp: is_max_run_def)
      moreover from rf have "\<And>k. ?s \<le> k \<Longrightarrow> k < n \<Longrightarrow> isPrintableASCII (b ! k)"
        by (simp add: run_from_iff)
      ultimately have "\<not> (?s \<le> e)" using e by blast
      with p show ?thesis by simp
    qed
    show ?thesis
    proof (cases "accepted T b m (?s, n)")
      case True
      have "set (runs @ [(?s, n)]) = {(s, e). e \<le> n \<and> is_max_run b s e \<and> accepted T b m (s, e)}"
        using True by (simp add: all)
      moreover have "in_order (runs @ [(?s, n)])"
        using ord before by (auto simp: in_order_def sorted_wrt_append)
      moreover have "emit T b m start n res = map (entry b) (runs @ [(?s, n)])"
        using True s0 lt res by (simp add: emit_eq)
      ultimately show ?thesis
        using False by (intro exI [of _ "runs @ [(?s, n)]"]) simp
    next
      case acc: False
      have "set runs = {(s, e). e \<le> n \<and> is_max_run b s e \<and> accepted T b m (s, e)}"
        using acc by (simp add: all)
      moreover have "emit T b m start n res = map (entry b) runs"
        using acc s0 lt res by (simp add: emit_eq)
      ultimately show ?thesis
        using False ord by (intro exI [of _ runs]) simp
    qed
  qed
qed

lemma ascii_step_inv:
  assumes inv: "ascii_inv T b m n res start" and n: "n < length b"
  shows "ascii_inv T b m (Suc n) (fst (ascii_step T b m n (res, start)))
           (snd (ascii_step T b m n (res, start)))"
proof (cases "isPrintableASCII (b ! n)")
  case True
  from inv obtain runs where res: "res = map (entry b) runs" and ord: "in_order runs"
    and runs: "set runs = {(s, e). e < n \<and> is_max_run b s e \<and> accepted T b m (s, e)}"
    by (auto simp: ascii_inv_def)
  have "\<not> is_max_run b s n" for s
    using True n by (simp add: is_max_run_def)
  then have set: "set runs = {(s, e). e < Suc n \<and> is_max_run b s e \<and> accepted T b m (s, e)}"
    unfolding runs by (auto simp: less_Suc_eq)
  show ?thesis
  proof (cases "start = -1")
    case s: True
    with inv have "n = 0 \<or> \<not> isPrintableASCII (b ! (n - 1))"
      by (simp add: ascii_inv_def)
    then have "run_from b n (Suc n)"
      using True n by (intro run_from_start)
    with True s res ord set show ?thesis
      by (auto simp: ascii_inv_def ascii_step_def)
  next
    case s: False
    with inv have "0 \<le> start" and "run_from b (nat start) n"
      by (simp_all add: ascii_inv_def)
    moreover from this True n have "run_from b (nat start) (Suc n)"
      by (intro run_from_extend)
    ultimately show ?thesis
      using True s res ord set by (auto simp: ascii_inv_def ascii_step_def)
  qed
next
  case False
  from close_run [OF inv] n False
  obtain runs where "(if start \<noteq> -1 then emit T b m start n res else res) = map (entry b) runs"
    and "in_order runs"
    and "set runs = {(s, e). e \<le> n \<and> is_max_run b s e \<and> accepted T b m (s, e)}"
    by auto
  with False show ?thesis
    by (auto simp: ascii_inv_def ascii_step_def less_Suc_eq_le)
qed

lemma ascii_fold_inv:
  "n \<le> length b \<Longrightarrow>
     ascii_inv T b m n (fst (fold (ascii_step T b m) [0..<n] ([], -1)))
       (snd (fold (ascii_step T b m) [0..<n] ([], -1)))"
proof (induction n)
  case 0
  show ?case by (simp add: ascii_inv_def in_order_def)
next
  case (Suc n)
  then have "ascii_inv T b m n (fst (fold (ascii_step T b m) [0..<n] ([], -1)))
       (snd (fold (ascii_step T b m) [0..<n] ([], -1)))" and "n < length b"
    by simp_all
  from ascii_step_inv [OF this] show ?case by simp
qed

lemma extractASCIIStrings_runs:
  "\<exists>runs. extractASCIIStrings T b m = map (entry b) runs \<and> in_order runs
     \<and> set runs = {(s, e). is_max_run b s e \<and> accepted T b m (s, e)}"
proof -
  have "{(s, e). e \<le> length b \<and> is_max_run b s e \<and> accepted T b m (s, e)}
      = {(s, e). is_max_run b s e \<and> accepted T b m (s, e)}"
    by (auto simp: is_max_run_def run_from_def)
  with close_run [OF ascii_fold_inv [of "length b" b T m]] show ?thesis
    by (simp add: extractASCIIStrings_def case_prod_beta)
qed

section \<open>The UTF-8 decoder and scanner\<close>

declare decode_all.simps [simp del]

lemma decode_all_Nil: "decode_all [] = []"
  by (simp add: decode_all.simps)

lemma decode_all_nonempty:
  "xs \<noteq> [] \<Longrightarrow> decode_all xs = DecodeRune xs # decode_all (drop (snd (DecodeRune xs)) xs)"
  by (cases xs) (simp_all add: decode_all.simps)

lemma first_AS: "first p0 = AS \<longleftrightarrow> p0 < 0x80"
  by (simp add: first_def)

lemma DecodeRune_ascii: "byte_val c < 0x80 \<Longrightarrow> DecodeRune (c # s) = (byte_val c, 1)"
  by (simp add: DecodeRune_def first_def)

lemma decode_all_ascii:
  "\<forall>c\<in>set s. byte_val c < 0x80 \<Longrightarrow> decode_all s = map (\<lambda>c. (byte_val c, 1)) s"
  by (induction s) (simp_all add: decode_all_Nil decode_all_nonempty DecodeRune_ascii)

lemma isPureASCII_iff: "isPureASCII s \<longleftrightarrow> (\<forall>c\<in>set s. byte_val c < 0x80)"
  by (induction s) auto

lemma DecodeRune_take:
  assumes "\<not> decode_error (DecodeRune q)" and "snd (DecodeRune q) \<le> n"
  shows "DecodeRune (take n q) = DecodeRune q"
proof (cases q)
  case Nil
  then show ?thesis by simp
next
  case (Cons c q')
  have "1 \<le> snd (DecodeRune q)" using Cons by (intro DecodeRune_size_pos) simp
  with assms(2) obtain n' where n: "n = Suc n'" by (cases n) auto
  show ?thesis
  proof (cases "first (byte_val c)")
    case AS
    then show ?thesis using Cons n by (simp add: DecodeRune_def)
  next
    case XX
    with assms(1) Cons show ?thesis by (simp add: DecodeRune_def decode_error_def)
  next
    case (Lead sz lo hi)
    from first_Lead [OF this] have sz: "sz = 2 \<or> sz = 3 \<or> sz = 4" by auto
    show ?thesis
      using assms Lead Cons sz n
      by (auto simp: DecodeRune_def Let_def decode_error_def min_def split: if_splits)
  qed
qed

lemma DecodeRune_single:
  assumes "\<not> decode_error (DecodeRune (c # s))" and "snd (DecodeRune (c # s)) = 1"
  shows "byte_val c < 0x80"
proof (cases "first (byte_val c)")
  case AS
  then show ?thesis by (simp add: first_AS)
next
  case XX
  with assms show ?thesis by (simp add: DecodeRune_def decode_error_def)
next
  case (Lead sz lo hi)
  with assms show ?thesis
    by (auto simp: DecodeRune_def Let_def decode_error_def split: if_splits)
qed

lemma first_Lead_range:
  "first p0 = Lead sz lo hi \<Longrightarrow>
     (sz = 2 \<and> 0xC2 \<le> p0 \<and> p0 < 0xE0)
     \<or> (sz = 3 \<and> p0 = 0xE0 \<and> lo = 0xA0 \<and> hi = 0xBF)
     \<or> (sz = 3 \<and> 0xE1 \<le> p0 \<and> p0 < 0xF0)
     \<or> (sz = 4 \<and> p0 = 0xF0 \<and> lo = 0x90 \<and> hi = 0xBF)
     \<or> (sz = 4 \<and> 0xF1 \<le> p0 \<and> p0 \<le> 0xF4)"
  by (auto simp: first_def split: if_splits)

lemma mod_window:
  fixes p n k :: nat
  assumes "k * n \<le> p" and "p < k * n + n"
  shows "p mod n = p - k * n"
proof -
  have e: "p = n * k + (p - k * n)" using assms by (simp add: mult.commute)
  have "p mod n = (n * k + (p - k * n)) mod n"
    by (rule arg_cong [of _ _ "\<lambda>x. x mod n", OF e])
  also have "\<dots> = (p - k * n) mod n" by (rule mod_mult_self4)
  also have "\<dots> = p - k * n" using assms by (intro mod_less) simp
  finally show ?thesis .
qed

lemma mod_lower_bounds:
  fixes p0 b1 :: nat
  shows "0xC2 \<le> p0 \<Longrightarrow> p0 < 0xE0 \<Longrightarrow> 2 \<le> p0 mod 32"
    and "0xE1 \<le> p0 \<Longrightarrow> p0 < 0xF0 \<Longrightarrow> 1 \<le> p0 mod 16"
    and "0xF1 \<le> p0 \<Longrightarrow> p0 \<le> 0xF4 \<Longrightarrow> 1 \<le> p0 mod 8"
    and "0xA0 \<le> b1 \<Longrightarrow> b1 \<le> 0xBF \<Longrightarrow> 32 \<le> b1 mod 64"
    and "0x90 \<le> b1 \<Longrightarrow> b1 \<le> 0xBF \<Longrightarrow> 16 \<le> b1 mod 64"
  using mod_window [of 6 32 p0] mod_window [of 14 16 p0] mod_window [of 30 8 p0]
    mod_window [of 2 64 b1]
  by simp_all

lemma DecodeRune_multi:
  assumes "1 < snd (DecodeRune p)"
  shows "0x80 \<le> fst (DecodeRune p)"
proof (cases p)
  case Nil
  with assms show ?thesis by (simp add: DecodeRune_def)
next
  case (Cons c q)
  show ?thesis
  proof (cases "first (byte_val c)")
    case AS
    with assms Cons show ?thesis by (simp add: DecodeRune_def)
  next
    case XX
    with assms Cons show ?thesis by (simp add: DecodeRune_def)
  next
    case (Lead sz lo hi)
    define p0 where "p0 = byte_val c"
    define b1 where "b1 = byte_val (p ! 1)"
    define v2 where "v2 = (p0 mod 32) * 64 + b1 mod 64"
    define v3 where "v3 = (p0 mod 16) * 4096 + (b1 mod 64) * 64 + byte_val (p ! 2) mod 64"
    define v4 where "v4 = (p0 mod 8) * 262144 + (b1 mod 64) * 4096 + (byte_val (p ! 2) mod 64) * 64
        + byte_val (p ! 3) mod 64"
    define ok where "ok = (\<not> b1 < lo \<and> \<not> hi < b1)"
    have D: "DecodeRune p = (RuneError, 1) \<or> ok \<and> (DecodeRune p = (v2, 2) \<and> sz = 2
        \<or> DecodeRune p = (v3, 3) \<and> sz = 3 \<or> DecodeRune p = (v4, 4) \<and> sz = 4)"
      using Lead Cons first_Lead [OF Lead]
      by (simp add: DecodeRune_def Let_def p0_def b1_def v2_def v3_def v4_def ok_def)
    from first_Lead_range [OF Lead [folded p0_def]] consider
        (a) "sz = 2" "0xC2 \<le> p0" "p0 < 0xE0"
      | (b) "sz = 3" "p0 = 0xE0" "lo = 0xA0" "hi = 0xBF"
      | (c) "sz = 3" "0xE1 \<le> p0" "p0 < 0xF0"
      | (d) "sz = 4" "p0 = 0xF0" "lo = 0x90" "hi = 0xBF"
      | (e) "sz = 4" "0xF1 \<le> p0" "p0 \<le> 0xF4"
      by blast
    then have "(sz = 2 \<longrightarrow> 0x80 \<le> v2) \<and> (sz = 3 \<and> ok \<longrightarrow> 0x80 \<le> v3)
        \<and> (sz = 4 \<and> ok \<longrightarrow> 0x80 \<le> v4)"
    proof cases
      case a
      from mod_lower_bounds(1) [OF a(2,3)] a(1) show ?thesis by (simp add: v2_def)
    next
      case b
      have "ok \<Longrightarrow> 32 \<le> b1 mod 64"
        unfolding ok_def b(3,4) by (intro mod_lower_bounds(4)) simp_all
      with b(1) show ?thesis by (auto simp: v3_def)
    next
      case c
      from mod_lower_bounds(2) [OF c(2,3)] c(1) show ?thesis by (simp add: v3_def)
    next
      case d
      have "ok \<Longrightarrow> 16 \<le> b1 mod 64"
        unfolding ok_def d(3,4) by (intro mod_lower_bounds(5)) simp_all
      with d(1) show ?thesis by (auto simp: v4_def)
    next
      case e
      from mod_lower_bounds(3) [OF e(2,3)] e(1) show ?thesis by (simp add: v4_def)
    qed
    with D assms show ?thesis by auto
  qed
qed

lemma multibyte_rune:
  assumes "\<forall>d\<in>set (decode_all s). \<not> decode_error d" and "\<not> isPureASCII s"
  shows "\<exists>d\<in>set (decode_all s). 1 < snd d \<and> 0x80 \<le> fst d"
  using assms
proof (induction s rule: decode_all.induct)
  case 1
  then show ?case by simp
next
  case (2 c s)
  let ?d = "DecodeRune (c # s)"
  have da: "decode_all (c # s) = ?d # decode_all (drop (snd ?d) (c # s))"
    by (simp add: decode_all_nonempty)
  show ?case
  proof (cases "snd ?d = 1")
    case True
    from "2.prems"(1) da have "\<not> decode_error ?d" by simp
    from DecodeRune_single [OF this True] have "byte_val c < 0x80" .
    with "2.prems"(2) have "\<not> isPureASCII s" by simp
    moreover from "2.prems"(1) da True have "\<forall>d\<in>set (decode_all s). \<not> decode_error d" by simp
    ultimately have "\<exists>d\<in>set (decode_all s). 1 < snd d \<and> 0x80 \<le> fst d"
      using "2.IH" True by simp
    with da True show ?thesis by simp
  next
    case False
    moreover have "1 \<le> snd ?d" by (intro DecodeRune_size_pos) simp
    ultimately have "1 < snd ?d" by simp
    with DecodeRune_multi [of "c # s"] da show ?thesis by simp
  qed
qed

lemma slice_empty: "slice b i i = []"
  by (simp add: slice_def)

lemma drop_slice: "drop k (slice b i j) = slice b (i + k) j"
  by (simp add: slice_def drop_take add.commute)

lemma utf8_run_decode:
  "i \<le> length b \<Longrightarrow> utf8_run b i p = (j, p') \<Longrightarrow>
     i \<le> j \<and> j \<le> length b \<and> p' = p + length (decode_all (slice b i j))
     \<and> (\<forall>d\<in>set (decode_all (slice b i j)).
           \<not> decode_error d \<and> \<not> IsControl (fst d) \<and> fst d \<noteq> 0x0A \<and> fst d \<noteq> 0x0D \<and> fst d \<noteq> 0x09)"
proof (induction b i p rule: utf8_run.induct)
  case (1 b i p)
  show ?case
  proof (cases "run_continues b i")
    case False
    with "1.prems" show ?thesis
      by (simp add: utf8_run_stop slice_empty decode_all_Nil)
  next
    case True
    let ?d = "DecodeRune (drop i b)"
    from True have lt: "i < length b" and valid: "\<not> decode_error ?d"
      and ok: "\<not> IsControl (fst ?d)" "fst ?d \<noteq> 0x0A" "fst ?d \<noteq> 0x0D" "fst ?d \<noteq> 0x09"
      by (auto simp: run_continues_def Let_def decode_error_def)
    have pos: "1 \<le> snd ?d" using lt by (intro DecodeRune_size_pos) simp
    have le: "i + snd ?d \<le> length b" using DecodeRune_size_le [of "drop i b"] lt by simp
    from "1.prems"(2) True have run: "utf8_run b (i + snd ?d) (p + 1) = (j, p')"
      by (simp add: utf8_run_step)
    have ih: "i + snd ?d \<le> j \<and> j \<le> length b
        \<and> p' = p + 1 + length (decode_all (slice b (i + snd ?d) j))
        \<and> (\<forall>d\<in>set (decode_all (slice b (i + snd ?d) j)).
              \<not> decode_error d \<and> \<not> IsControl (fst d) \<and> fst d \<noteq> 0x0A \<and> fst d \<noteq> 0x0D \<and> fst d \<noteq> 0x09)"
      using "1.IH" [OF lt refl refl _ _ _ le run] valid ok
      by (simp add: decode_error_def)
    then have ij: "snd ?d \<le> j - i" "i < j" using pos by linarith+
    have ne: "slice b i j \<noteq> []" using ij ih lt by (simp add: slice_def)
    have "DecodeRune (slice b i j) = ?d"
      unfolding slice_def using valid ij(1) by (rule DecodeRune_take)
    then have "decode_all (slice b i j) = ?d # decode_all (slice b (i + snd ?d) j)"
      using ne by (simp add: decode_all_nonempty drop_slice)
    with ih valid ok show ?thesis by simp
  qed
qed

lemma utf8_emit_cases:
  "u \<in> set (utf8_emit T b m i j printable res) \<Longrightarrow>
     u \<in> set res \<or> (m \<le> int printable \<and> u = \<lparr>Value = slice b i j, Address = of_nat i\<rparr>
        \<and> \<not> isPureASCII (slice b i j) \<and> isLikelyString T (slice b i j))"
  by (auto simp: utf8_emit_def Let_def split: if_splits)

lemma utf8_loop_sound:
  "u \<in> set (utf8_loop T b m i res) \<Longrightarrow> u \<in> set res \<or> (\<exists>k\<ge>i. utf8_candidate T b m k u)"
proof (induction T b m i res rule: utf8_loop.induct)
  case (1 T b m i res)
  show ?case
  proof (cases "i < length b")
    case False
    with "1.prems" show ?thesis by (subst (asm) utf8_loop.simps) simp
  next
    case lt: True
    show ?thesis
    proof (cases "decode_error (DecodeRune (drop i b))")
      case True
      with lt "1.prems" have "u \<in> set (utf8_loop T b m (i + 1) res)"
        by (subst (asm) utf8_loop.simps) simp
      from "1.IH"(1) [OF lt True this] show ?thesis by auto
    next
      case False
      let ?next = "utf8_next i (snd (DecodeRune (drop i b))) (fst (utf8_run b i 0))"
      let ?res = "utf8_emit T b m i (fst (utf8_run b i 0)) (snd (utf8_run b i 0)) res"
      have "i \<le> ?next"
        using utf8_run_ge [of i b 0] by (simp add: utf8_next_def)
      moreover from lt False "1.prems" have "u \<in> set (utf8_loop T b m ?next ?res)"
        by (subst (asm) utf8_loop.simps) simp
      from "1.IH"(2) [OF lt False this]
      have "u \<in> set ?res \<or> (\<exists>k\<ge>?next. utf8_candidate T b m k u)" .
      moreover have "u \<in> set res \<or> utf8_candidate T b m i u" if "u \<in> set ?res"
        using utf8_emit_cases [OF that] lt by (auto simp: utf8_candidate_def)
      ultimately show ?thesis by (meson le_refl order_trans)
    qed
  qed
qed

lemma utf8_loop_done: "length b \<le> i \<Longrightarrow> utf8_loop T b m i res = res"
  by (subst utf8_loop.simps) simp

lemma utf8_loop_skip:
  "i < length b \<Longrightarrow> decode_error (DecodeRune (drop i b)) \<Longrightarrow>
     utf8_loop T b m i res = utf8_loop T b m (i + 1) res"
  by (subst utf8_loop.simps) simp

lemma utf8_loop_step:
  "i < length b \<Longrightarrow> \<not> decode_error (DecodeRune (drop i b)) \<Longrightarrow> utf8_run b i 0 = (j, p) \<Longrightarrow>
     utf8_loop T b m i res =
       utf8_loop T b m (utf8_next i (snd (DecodeRune (drop i b))) j) (utf8_emit T b m i j p res)"
  by (subst utf8_loop.simps) simp

lemma isPureASCII_slice: "isPureASCII b \<Longrightarrow> isPureASCII (slice b i j)"
  unfolding isPureASCII_iff slice_def by (meson in_set_dropD in_set_takeD)

lemma isPureASCII_drop_mono: "isPureASCII (drop i b) \<Longrightarrow> i \<le> k \<Longrightarrow> isPureASCII (drop k b)"
  unfolding isPureASCII_iff using set_drop_subset_set_drop [of i k b] by blast

lemma utf8_loop_ascii_tail: "isPureASCII (drop i b) \<Longrightarrow> utf8_loop T b m i res = res"
proof (induction T b m i res rule: utf8_loop.induct)
  case (1 T b m i res)
  show ?case
  proof (cases "i < length b")
    case False
    then show ?thesis by (simp add: utf8_loop_done)
  next
    case lt: True
    show ?thesis
    proof (cases "decode_error (DecodeRune (drop i b))")
      case True
      from "1.prems" have "isPureASCII (drop (i + 1) b)" by (rule isPureASCII_drop_mono) simp
      with "1.IH"(1) [OF lt True] lt True show ?thesis by (simp add: utf8_loop_skip)
    next
      case False
      let ?j = "fst (utf8_run b i 0)"
      let ?p = "snd (utf8_run b i 0)"
      let ?next = "utf8_next i (snd (DecodeRune (drop i b))) ?j"
      have "isPureASCII (slice b i ?j)"
        using "1.prems" unfolding isPureASCII_iff slice_def by (meson in_set_takeD)
      then have emit: "utf8_emit T b m i ?j ?p res = res"
        by (simp add: utf8_emit_def)
      have "i \<le> ?next" using utf8_run_ge [of i b 0] by (simp add: utf8_next_def)
      with "1.prems" have "isPureASCII (drop ?next b)" by (rule isPureASCII_drop_mono)
      with "1.IH"(2) [OF lt False] emit
      have "utf8_loop T b m ?next (utf8_emit T b m i ?j ?p res) = res" by simp
      with lt False show ?thesis
        by (subst utf8_loop_step [OF lt False, of ?j ?p]) simp_all
    qed
  qed
qed

lemma extractUTF8Strings_sound:
  "u \<in> set (extractUTF8Strings T b m) \<Longrightarrow> \<exists>k. utf8_candidate T b m k u"
  using utf8_loop_sound [of u T b m 0 "[]"] by (auto simp: extractUTF8Strings_def)

lemma extractUTF8Strings_ascii: "isPureASCII b \<Longrightarrow> extractUTF8Strings T b m = []"
proof (rule ccontr)
  assume pure: "isPureASCII b" and "extractUTF8Strings T b m \<noteq> []"
  then obtain u where "u \<in> set (extractUTF8Strings T b m)"
    by (cases "extractUTF8Strings T b m") auto
  from extractUTF8Strings_sound [OF this] obtain k where "utf8_candidate T b m k u" ..
  then have "\<not> isPureASCII (slice b k (fst (utf8_run b k 0)))"
    by (auto simp: utf8_candidate_def)
  with isPureASCII_slice [OF pure] show False by blast
qed

lemma extractASCIIStrings_entry:
  assumes "a \<in> set (extractASCIIStrings T b m)"
  shows "\<exists>s e. is_max_run b s e \<and> accepted T b m (s, e) \<and> a = entry b (s, e)"
proof -
  from extractASCIIStrings_runs [of T b m] obtain runs
    where "extractASCIIStrings T b m = map (entry b) runs"
      and "set runs = {(s, e). is_max_run b s e \<and> accepted T b m (s, e)}"
    by blast
  with assms show ?thesis by auto
qed

lemma printable_below_RuneSelf: "isPrintableASCII c \<Longrightarrow> byte_val c < 0x80"
  by (simp add: isPrintableASCII_def)

lemma extractASCIIStrings_value:
  assumes "a \<in> set (extractASCIIStrings T b m)"
  shows "list_all isPrintableASCII (Value a) \<and> m \<le> int (length (Value a))
    \<and> isLikelyString T (Value a) \<and> isPureASCII (Value a)"
proof -
  from extractASCIIStrings_entry [OF assms] obtain s e
    where max: "is_max_run b s e" and acc: "accepted T b m (s, e)" and a: "a = entry b (s, e)"
    by blast
  from max have p: "list_all isPrintableASCII (slice b s e)" and e: "e \<le> length b"
    by (simp_all add: is_max_run_def run_from_def)
  from p have "isPureASCII (slice b s e)"
    by (auto simp: isPureASCII_iff list_all_iff dest: printable_below_RuneSelf)
  with p acc e a show ?thesis
    by (simp add: entry_def accepted_def slice_length)
qed


lemma utf8_entry_facts:
  assumes "u \<in> set (extractUTF8Strings T b minLength)"
  shows "minLength \<le> int (length (runes (Value u)))
    \<and> (\<exists>d\<in>set (decode_all (Value u)). 1 < snd d \<and> 0x80 \<le> fst d)
    \<and> (\<forall>d\<in>set (decode_all (Value u)). \<not> decode_error d)
    \<and> (\<forall>r\<in>set (runes (Value u)). \<not> IsControl r \<and> r \<noteq> 0x0A \<and> r \<noteq> 0x0D \<and> r \<noteq> 0x09)
    \<and> (\<exists>k j. k < j \<and> j \<le> length b \<and> Value u = slice b k j \<and> Address u = of_nat k
          \<and> utf8_run b k 0 = (j, length (runes (Value u))))
    \<and> (\<forall>a\<in>set (extractASCIIStrings T b minLength'). Value a \<noteq> Value u)"
proof -
  from extractUTF8Strings_sound [OF assms] obtain k where c: "utf8_candidate T b minLength k u" ..
  obtain j p where run: "utf8_run b k 0 = (j, p)" by (cases "utf8_run b k 0")
  from c run have k: "k < length b" and p: "minLength \<le> int p"
    and u: "u = \<lparr>Value = slice b k j, Address = of_nat k\<rparr>"
    and high: "\<not> isPureASCII (slice b k j)"
    by (auto simp: utf8_candidate_def)
  from utf8_run_decode [OF _ run] k
  have kj: "k \<le> j" "j \<le> length b" and len: "p = length (decode_all (slice b k j))"
    and ok: "\<forall>d\<in>set (decode_all (slice b k j)).
      \<not> decode_error d \<and> \<not> IsControl (fst d) \<and> fst d \<noteq> 0x0A \<and> fst d \<noteq> 0x0D \<and> fst d \<noteq> 0x09"
    by simp_all
  from high have "slice b k j \<noteq> []" by auto
  with kj have "k < j" by (auto simp: slice_def)
  from ok have valid: "\<forall>d\<in>set (decode_all (slice b k j)). \<not> decode_error d" by blast
  from multibyte_rune [OF valid high]
  have multi: "\<exists>d\<in>set (decode_all (slice b k j)). 1 < snd d \<and> 0x80 \<le> fst d" .
  have other: "Value a \<noteq> slice b k j" if "a \<in> set (extractASCIIStrings T b minLength')" for a
    using extractASCIIStrings_value [OF that] high by auto
  from p len u have "minLength \<le> int (length (runes (Value u)))"
    by (simp add: runes_def)
  moreover from multi u have "\<exists>d\<in>set (decode_all (Value u)). 1 < snd d \<and> 0x80 \<le> fst d"
    by simp
  moreover from valid u have "\<forall>d\<in>set (decode_all (Value u)). \<not> decode_error d"
    by simp
  moreover from ok u
  have "\<forall>r\<in>set (runes (Value u)). \<not> IsControl r \<and> r \<noteq> 0x0A \<and> r \<noteq> 0x0D \<and> r \<noteq> 0x09"
    by (auto simp: runes_def)
  moreover from \<open>k < j\<close> kj run len u
  have "\<exists>k j. k < j \<and> j \<le> length b \<and> Value u = slice b k j \<and> Address u = of_nat k
      \<and> utf8_run b k 0 = (j, length (runes (Value u)))"
    by (auto simp: runes_def)
  moreover from other u have "\<forall>a\<in>set (extractASCIIStrings T b minLength'). Value a \<noteq> Value u"
    by simp
  ultimately show ?thesis by blast
qed

section \<open>The classifier\<close>

lemma count_fold:
  "fold (\<lambda>r n. if P r then n + 1 else n) xs (k::nat) = k + length (filter P xs)"
  by (induction xs arbitrary: k) simp_all

lemma runes_nonempty: "s \<noteq> [] \<Longrightarrow> runes s \<noteq> []"
  by (simp add: runes_def decode_all_nonempty)

lemma HasPrefix_iff: "HasPrefix s p \<longleftrightarrow> prefix p s"
  by (induction s p rule: HasPrefix.induct) auto

lemma Contains_iff: "Contains s sub \<longleftrightarrow> sublist sub s"
  by (induction s) (simp_all add: HasPrefix_iff sublist_Cons_right)

lemma has_hint_iff:
  "has_hint lower hs \<longleftrightarrow> (\<exists>h\<in>set hs. prefix h lower \<or> sublist (h @ '' '') lower)"
  by (induction hs) (auto simp: HasPrefix_iff Contains_iff)

lemma all_equal_to_iff: "all_equal_to c0 s \<longleftrightarrow> (\<forall>c\<in>set s. c = c0)"
  by (induction s) auto

lemma isRepeatedChar_iff: "isRepeatedChar s \<longleftrightarrow> 3 \<le> length s \<and> (\<forall>c\<in>set s. c = s ! 0)"
proof (cases s)
  case Nil
  then show ?thesis by (simp add: isRepeatedChar_def)
next
  case (Cons c t)
  then show ?thesis by (auto simp: isRepeatedChar_def all_equal_to_iff)
qed

lemma TrimLeftSpace_unchanged:
  "byte_val c < 0x80 \<Longrightarrow> \<not> IsSpace (byte_val c) \<Longrightarrow> TrimLeftSpace (c # s) = c # s"
  by (simp add: DecodeRune_ascii)

lemma DecodeLastRune_ascii:
  assumes "s \<noteq> []" and "byte_val (last s) < 0x80"
  shows "DecodeLastRune s = (byte_val (last s), 1)"
proof -
  have "nat (int (length s) - 1) = length s - 1" by simp
  moreover have "last s = s ! (length s - 1)"
    using assms(1) by (rule last_conv_nth)
  ultimately have "s ! nat (int (length s) - 1) = last s" by simp
  with assms show ?thesis
    by (simp add: DecodeLastRune_def Let_def RuneSelf_def)
qed

lemma TrimRightSpace_unchanged:
  "s \<noteq> [] \<Longrightarrow> byte_val (last s) < 0x80 \<Longrightarrow> \<not> IsSpace (byte_val (last s)) \<Longrightarrow> TrimRightSpace s = s"
  by (subst TrimRightSpace.simps) (simp add: DecodeLastRune_ascii)

lemma TrimSpace_unchanged:
  assumes "s \<noteq> []" and "byte_val (hd s) < 0x80" and "\<not> IsSpace (byte_val (hd s))"
    and "byte_val (last s) < 0x80" and "\<not> IsSpace (byte_val (last s))"
  shows "TrimSpace s = s"
proof -
  from assms(1) obtain c t where s: "s = c # t" by (cases s) auto
  with assms(2,3) have "byte_val c < 0x80" and "\<not> IsSpace (byte_val c)" by simp_all
  then have "TrimLeftSpace s = s" unfolding s by (rule TrimLeftSpace_unchanged)
  with assms(1,4,5) show ?thesis by (simp add: TrimSpace_def TrimRightSpace_unchanged)
qed

lemma lower_byte_ascii: "byte_val c < 0x80 \<Longrightarrow> byte_val (lower_byte c) < 0x80"
  by (simp add: lower_byte_def)

lemma ToLower_ascii: "isPureASCII s \<Longrightarrow> isPureASCII (ToLower T s)"
  by (auto simp: ToLower_def Let_def isPureASCII_iff list_all_iff RuneSelf_def lower_byte_ascii)

lemma ToLower_ascii_runes:
  assumes "isPureASCII s"
  shows "length (runes (ToLower T s)) = length (ToLower T s)"
  using ToLower_ascii [OF assms, of T] by (simp add: runes_def decode_all_ascii isPureASCII_iff)

section \<open>The report\<close>

lemma section_entries_skip: "err \<noteq> None \<or> data = [] \<Longrightarrow> section_entries T m name (start, data, err) = []"
  by (auto simp: section_entries_def)

lemma section_entries_origin:
  assumes "e \<in> set (section_entries T m name d)"
  shows "\<exists>start data s. d = (start, data, None) \<and> data \<noteq> []
    \<and> s \<in> set (extractPrintableStrings T data m)
    \<and> e = \<lparr>Value = Value s, Address = start + Address s, Section = name\<rparr>"
  using assms by (cases d) (auto simp: section_entries_def split: if_splits)

lemma collected_origin:
  assumes "e \<in> set (collected T file m)"
  shows "\<exists>name start data s.
    (name, start, data, None) \<in> {(''.text'', Text file), (''.rodata'', RData file),
       (''.data.rel.ro'', RelRData file)}
    \<and> data \<noteq> [] \<and> s \<in> set (extractPrintableStrings T data m)
    \<and> e = \<lparr>Value = Value s, Address = start + Address s, Section = name\<rparr>"
proof -
  from assms consider
      "e \<in> set (section_entries T m ''.text'' (Text file))"
    | "e \<in> set (section_entries T m ''.rodata'' (RData file))"
    | "e \<in> set (section_entries T m ''.data.rel.ro'' (RelRData file))"
    by (auto simp: collected_def)
  then show ?thesis
  proof cases
    case 1
    from section_entries_origin [OF this] show ?thesis by (metis insertI1)
  next
    case 2
    from section_entries_origin [OF this] show ?thesis by (metis insertI1 insertI2)
  next
    case 3
    from section_entries_origin [OF this] show ?thesis by (metis insertI1 insertI2)
  qed
qed

lemma set_deduplicateStrings: "set (deduplicateStrings xs) \<subseteq> set xs"
  by (simp add: deduplicateStrings_firsts set_firsts_by)

lemma report_strings:
  "Strings (fst (extractStrings srt T file m))
     = srt address_less (deduplicateStrings (collected T file m))"
  by (simp add: extractStrings_eq)

lemma report_subset:
  "sort_Slice_contract srt \<Longrightarrow>
     set (Strings (fst (extractStrings srt T file m))) \<subseteq> set (collected T file m)"
  using set_deduplicateStrings [of "collected T file m"]
  by (simp add: report_strings contract_set)

lemma printable_strings_set:
  "set (extractPrintableStrings T b m)
     = set (extractASCIIStrings T b m) \<union> set (extractUTF8Strings T b m)"
  by (simp add: extractPrintableStrings_def)

lemma ascii_rune_count:
  assumes "a \<in> set (extractASCIIStrings T b m)"
  shows "m \<le> int (length (Value a)) \<and> length (runes (Value a)) = length (Value a)"
proof -
  from extractASCIIStrings_value [OF assms]
  have "isPureASCII (Value a)" and "m \<le> int (length (Value a))" by simp_all
  then show ?thesis by (simp add: runes_def decode_all_ascii isPureASCII_iff)
qed

lemma utf8_rune_count:
  "u \<in> set (extractUTF8Strings T b m) \<Longrightarrow> m \<le> int (length (runes (Value u)))"
  using utf8_entry_facts [of u T b m] by blast

lemma address_sorted_iff: "address_sorted xs \<longleftrightarrow> sorted_wrt (\<lambda>a b. Address a \<le> Address b) xs"
  by (simp add: address_less_def not_less)

lemma unat_add64:
  fixes x y :: uint64
  shows "unat (x + y) = (unat x + unat y) mod 2 ^ 64"
    and "unat x + unat y < 2 ^ 64 \<Longrightarrow> unat (x + y) = unat x + unat y"
    and "2 ^ 64 \<le> unat x + unat y \<Longrightarrow> unat (x + y) = unat x + unat y - 2 ^ 64"
proof -
  show m: "unat (x + y) = (unat x + unat y) mod 2 ^ 64"
    by (simp add: unat_word_ariths)
  show "unat (x + y) = unat x + unat y" if "unat x + unat y < 2 ^ 64"
    using that m by simp
  show "unat (x + y) = unat x + unat y - 2 ^ 64" if ge: "2 ^ 64 \<le> unat x + unat y"
  proof -
    have "unat x < 2 ^ 64" "unat y < 2 ^ 64"
      using unsigned_less [of x] unsigned_less [of y] by simp_all
    then have "unat x + unat y - 2 ^ 64 < (2 ^ 64 :: nat)" by simp
    moreover have "(unat x + unat y) mod 2 ^ 64 = (unat x + unat y - 2 ^ 64) mod 2 ^ 64"
      using ge by (simp add: le_mod_geq)
    ultimately show ?thesis using m by simp
  qed
qed

section \<open>Evaluation of the examples\<close>

lemma utf8_buffer_run: "utf8_run utf8_buffer 0 0 = (12, 11)"
  by (simp add: utf8_buffer_def utf8_run.simps DecodeRune_def first_def Let_def RuneError_def
      IsControl_def MaxLatin1_def)

lemma utf8_buffer_likely: "isLikelyString latin1_tables utf8_buffer"
  by code_simp

lemma utf8_buffer_scan:
  "extractUTF8Strings latin1_tables utf8_buffer 5 = [\<lparr>Value = utf8_buffer, Address = 0\<rparr>]"
proof -
  have s: "slice utf8_buffer 0 12 = utf8_buffer" by (simp add: slice_def utf8_buffer_def)
  have d: "\<not> decode_error (DecodeRune (drop 0 utf8_buffer))"
    by (simp add: utf8_buffer_def DecodeRune_def first_def decode_error_def RuneError_def)
  have l: "length utf8_buffer = 12" by (simp add: utf8_buffer_def)
  have p: "\<not> isPureASCII utf8_buffer" by (simp add: utf8_buffer_def)
  have "utf8_loop latin1_tables utf8_buffer 5 0 [] =
      utf8_loop latin1_tables utf8_buffer 5 13 [\<lparr>Value = utf8_buffer, Address = 0\<rparr>]"
    using d by (subst utf8_loop_step [OF _ _ utf8_buffer_run])
      (simp_all add: l utf8_next_def utf8_emit_def s p utf8_buffer_likely)
  then show ?thesis
    by (simp add: extractUTF8Strings_def utf8_loop_done l)
qed


lemma likely_hello_world: "isLikelyString latin1_tables ''Hello, world!''"
  by code_simp

lemma unlikely_mov: "\<not> isLikelyString latin1_tables ''mov eax, 1''"
  by code_simp

lemma scenario_scan:
  "extractASCIIStrings latin1_tables scenario 5 = [\<lparr>Value = ''Hello, world!'', Address = 2\<rparr>]"
  by (simp add: scenario_def extractASCIIStrings_def ascii_step_def emit_def isPrintableASCII_def
      slice_def likely_hello_world unlikely_mov upt_rec)

lemma scenario_runs:
  "is_max_run scenario 2 15" "is_max_run scenario 17 27"
  "slice scenario 2 15 = ''Hello, world!''" "slice scenario 17 27 = ''mov eax, 1''"
  by (simp_all add: scenario_def is_max_run_def run_from_def slice_def isPrintableASCII_def)


lemma likely_hello_w: "isLikelyString latin1_tables ''Hello w''"
  by code_simp

lemma utf8_buffer_ascii_scan:
  "extractASCIIStrings latin1_tables utf8_buffer 5 = [\<lparr>Value = ''Hello w'', Address = 0\<rparr>]"
  by (simp add: utf8_buffer_def extractASCIIStrings_def ascii_step_def emit_def isPrintableASCII_def
      slice_def likely_hello_w upt_rec)

lemma utf8_buffer_strings:
  "extractPrintableStrings latin1_tables utf8_buffer 5
     = [\<lparr>Value = ''Hello w'', Address = 0\<rparr>, \<lparr>Value = utf8_buffer, Address = 0\<rparr>]"
  by (simp add: extractPrintableStrings_def utf8_buffer_ascii_scan utf8_buffer_scan)

lemma scenario_strings:
  "extractPrintableStrings latin1_tables scenario 5 = [\<lparr>Value = ''Hello, world!'', Address = 2\<rparr>]"
proof -
  have "isPureASCII scenario" by (simp add: scenario_def)
  then show ?thesis
    by (simp add: extractPrintableStrings_def scenario_scan extractUTF8Strings_ascii)
qed

lemma hello_strings:
  "extractPrintableStrings latin1_tables ''Hello, world!'' 5
     = [\<lparr>Value = ''Hello, world!'', Address = 0\<rparr>]"
proof -
  have "extractASCIIStrings latin1_tables ''Hello, world!'' 5
      = [\<lparr>Value = ''Hello, world!'', Address = 0\<rparr>]"
    by (simp add: extractASCIIStrings_def ascii_step_def emit_def isPrintableASCII_def
        slice_def likely_hello_world upt_rec)
  moreover have "isPureASCII ''Hello, world!''" by simp
  ultimately show ?thesis
    by (simp add: extractPrintableStrings_def extractUTF8Strings_ascii)
qed

lemma zero_strings:
  "extractPrintableStrings latin1_tables [CHR 0x00] 5 = []"
  "extractPrintableStrings latin1_tables [CHR 0x00, CHR 0x00] 5 = []"
proof -
  have "extractASCIIStrings latin1_tables [CHR 0x00] 5 = []"
    "extractASCIIStrings latin1_tables [CHR 0x00, CHR 0x00] 5 = []"
    by (simp_all add: extractASCIIStrings_def ascii_step_def isPrintableASCII_def upt_rec)
  moreover have "isPureASCII [CHR 0x00]" "isPureASCII [CHR 0x00, CHR 0x00]" by simp_all
  ultimately show "extractPrintableStrings latin1_tables [CHR 0x00] 5 = []"
    "extractPrintableStrings latin1_tables [CHR 0x00, CHR 0x00] 5 = []"
    by (simp_all add: extractPrintableStrings_def extractUTF8Strings_ascii)
qed

lemma wrap_strings:
  "extractPrintableStrings latin1_tables wrap_data 5 = [\<lparr>Value = ''Hello, world!'', Address = 4\<rparr>]"
proof -
  have "extractASCIIStrings latin1_tables wrap_data 5 = [\<lparr>Value = ''Hello, world!'', Address = 4\<rparr>]"
    by (simp add: wrap_data_def extractASCIIStrings_def ascii_step_def emit_def isPrintableASCII_def
        slice_def likely_hello_world upt_rec)
  moreover have "isPureASCII wrap_data" by (simp add: wrap_data_def)
  ultimately show ?thesis
    by (simp add: extractPrintableStrings_def extractUTF8Strings_ascii)
qed

lemma tie_file_collected:
  "collected latin1_tables tie_file 5
     = [\<lparr>Value = ''Hello w'', Address = 0x1000, Section = ''.text''\<rparr>,
        \<lparr>Value = utf8_buffer, Address = 0x1000, Section = ''.text''\<rparr>]"
proof -
  have "utf8_buffer \<noteq> []" by (simp add: utf8_buffer_def)
  then show ?thesis
    by (simp add: collected_def section_entries_def tie_file_def utf8_buffer_strings)
qed

lemma tie_file_deduplicated:
  "deduplicateStrings (collected latin1_tables tie_file 5)
     = [\<lparr>Value = ''Hello w'', Address = 0x1000, Section = ''.text''\<rparr>,
        \<lparr>Value = utf8_buffer, Address = 0x1000, Section = ''.text''\<rparr>]"
  by (simp add: tie_file_collected deduplicateStrings_def dedup_step_def dedup_key_def
      seen_get_def utf8_buffer_def)

lemma sections_file_deduplicated:
  "deduplicateStrings (collected latin1_tables sections_file 5)
     = [\<lparr>Value = ''Hello, world!'', Address = 0x2000, Section = ''.text''\<rparr>,
        \<lparr>Value = ''Hello, world!'', Address = 0x1002, Section = ''.rodata''\<rparr>]"
proof -
  have "scenario \<noteq> []" by (simp add: scenario_def)
  then have "collected latin1_tables sections_file 5
     = [\<lparr>Value = ''Hello, world!'', Address = 0x2000, Section = ''.text''\<rparr>,
        \<lparr>Value = ''Hello, world!'', Address = 0x1002, Section = ''.rodata''\<rparr>]"
    by (simp add: collected_def section_entries_def sections_file_def hello_strings
        scenario_strings zero_strings)
  then show ?thesis
    by (simp add: deduplicateStrings_def dedup_step_def dedup_key_def seen_get_def)
qed

lemma twice_strings:
  "extractPrintableStrings latin1_tables (''Hello, world!'' @ [CHR 0x00] @ ''Hello, world!'') 5
     = [\<lparr>Value = ''Hello, world!'', Address = 0\<rparr>, \<lparr>Value = ''Hello, world!'', Address = 14\<rparr>]"
proof -
  have "extractASCIIStrings latin1_tables (''Hello, world!'' @ [CHR 0x00] @ ''Hello, world!'') 5
      = [\<lparr>Value = ''Hello, world!'', Address = 0\<rparr>, \<lparr>Value = ''Hello, world!'', Address = 14\<rparr>]"
    by (simp add: extractASCIIStrings_def ascii_step_def emit_def isPrintableASCII_def
        slice_def likely_hello_world upt_rec Let_def)
  moreover have "isPureASCII (''Hello, world!'' @ [CHR 0x00] @ ''Hello, world!'')" by simp
  ultimately show ?thesis
    by (simp add: extractPrintableStrings_def extractUTF8Strings_ascii)
qed

lemma dup_file_collected:
  "collected latin1_tables dup_file 5 =
     [\<lparr>Value = ''Hello, world!'', Address = 0x2000, Section = ''.text''\<rparr>,
      \<lparr>Value = ''Hello, world!'', Address = 0x200E, Section = ''.text''\<rparr>,
      \<lparr>Value = ''Hello, world!'', Address = 0x1000, Section = ''.rodata''\<rparr>]"
  using twice_strings
  by (simp add: collected_def section_entries_def dup_file_def hello_strings)

lemma skipped_file_collected: "collected latin1_tables skipped_file 5 = []"
  by (simp add: collected_def section_entries_def skipped_file_def zero_strings)

lemma likely_words:
  "isLikelyString latin1_tables ''runtime''"
  "isLikelyString latin1_tables ''golang''"
  "isLikelyString latin1_tables ''string''"
  "isLikelyString latin1_tables ''buffer''"
  "isLikelyString latin1_tables ''handle''"
  "isLikelyString latin1_tables ''kernel''"
  "isLikelyString latin1_tables ''module''"
  "isLikelyString latin1_tables ''object''"
  "isLikelyString latin1_tables ''printf''"
  "isLikelyString latin1_tables ''socket''"
  "isLikelyString latin1_tables ''thread''"
  by code_simp+

lemma ties_buffer_ascii_scan:
  "extractASCIIStrings latin1_tables ties_buffer 5 =
     [\<lparr>Value = ''Hello w'', Address = 0\<rparr>, \<lparr>Value = ''runtime'', Address = 13\<rparr>,
      \<lparr>Value = ''golang'', Address = 21\<rparr>, \<lparr>Value = ''string'', Address = 28\<rparr>,
      \<lparr>Value = ''buffer'', Address = 35\<rparr>, \<lparr>Value = ''handle'', Address = 42\<rparr>,
      \<lparr>Value = ''kernel'', Address = 49\<rparr>, \<lparr>Value = ''module'', Address = 56\<rparr>,
      \<lparr>Value = ''object'', Address = 63\<rparr>, \<lparr>Value = ''printf'', Address = 70\<rparr>,
      \<lparr>Value = ''socket'', Address = 77\<rparr>, \<lparr>Value = ''thread'', Address = 84\<rparr>]"
  by (simp add: ties_buffer_def utf8_buffer_def extractASCIIStrings_def ascii_step_def emit_def
      isPrintableASCII_def slice_def likely_hello_w likely_words upt_rec)

lemma ties_buffer_run: "utf8_run ties_buffer 0 0 = (12, 11)"
  by (simp add: ties_buffer_def utf8_buffer_def utf8_run.simps DecodeRune_def first_def Let_def
      RuneError_def IsControl_def MaxLatin1_def)

lemma ties_buffer_utf8_scan:
  "extractUTF8Strings latin1_tables ties_buffer 5 = [\<lparr>Value = utf8_buffer, Address = 0\<rparr>]"
proof -
  have s: "slice ties_buffer 0 12 = utf8_buffer"
    by (simp add: slice_def ties_buffer_def utf8_buffer_def)
  have d: "\<not> decode_error (DecodeRune (drop 0 ties_buffer))"
    by (simp add: ties_buffer_def utf8_buffer_def DecodeRune_def first_def decode_error_def
        RuneError_def)
  have l: "0 < length ties_buffer" by (simp add: ties_buffer_def utf8_buffer_def)
  have p: "\<not> isPureASCII utf8_buffer" by (simp add: utf8_buffer_def)
  have t: "isPureASCII (drop 13 ties_buffer)" by (simp add: ties_buffer_def utf8_buffer_def)
  have "utf8_loop latin1_tables ties_buffer 5 0 [] =
      utf8_loop latin1_tables ties_buffer 5 13 [\<lparr>Value = utf8_buffer, Address = 0\<rparr>]"
    using d l by (subst utf8_loop_step [OF _ _ ties_buffer_run])
      (simp_all add: utf8_next_def utf8_emit_def s p utf8_buffer_likely)
  then show ?thesis
    by (simp add: extractUTF8Strings_def utf8_loop_ascii_tail [OF t])
qed

lemma ties_file_collected: "collected latin1_tables ties_file 5 = ties_entries"
proof -
  have "ties_buffer \<noteq> []" by (simp add: ties_buffer_def)
  then show ?thesis
    by (simp add: collected_def section_entries_def ties_file_def extractPrintableStrings_def
        ties_buffer_ascii_scan ties_buffer_utf8_scan ties_entries_def)
qed

lemma ties_file_deduplicated:
  "deduplicateStrings (collected latin1_tables ties_file 5) = ties_entries"
  by (simp add: ties_file_collected ties_entries_def deduplicateStrings_def dedup_step_def
      dedup_key_def seen_get_def utf8_buffer_def)

lemma ties_sorted:
  "Slice next address_less ties_entries =
     [\<lparr>Value = utf8_buffer, Address = 0x1000, Section = ''.text''\<rparr>,
     \<lparr>Value = ''Hello w'', Address = 0x1000, Section = ''.text''\<rparr>,
     \<lparr>Value = ''runtime'', Address = 0x100D, Section = ''.text''\<rparr>,
     \<lparr>Value = ''golang'', Address = 0x1015, Section = ''.text''\<rparr>,
     \<lparr>Value = ''string'', Address = 0x101C, Section = ''.text''\<rparr>,
     \<lparr>Value = ''buffer'', Address = 0x1023, Section = ''.text''\<rparr>,
     \<lparr>Value = ''handle'', Address = 0x102A, Section = ''.text''\<rparr>,
     \<lparr>Value = ''kernel'', Address = 0x1031, Section = ''.text''\<rparr>,
     \<lparr>Value = ''module'', Address = 0x1038, Section = ''.text''\<rparr>,
     \<lparr>Value = ''object'', Address = 0x103F, Section = ''.text''\<rparr>,
     \<lparr>Value = ''printf'', Address = 0x1046, Section = ''.text''\<rparr>,
     \<lparr>Value = ''socket'', Address = 0x104D, Section = ''.text''\<rparr>,
     \<lparr>Value = ''thread'', Address = 0x1054, Section = ''.text''\<rparr>]"
  by code_simp

section \<open>Claims\<close>

subsection \<open>C1: deduplication\<close>

text \<open>
  C1. The finalizer receives the strings that the entry point has extracted, each with one
  of the labels \<open>.text\<close>, \<open>.rodata\<close> and \<open>.data.rel.ro\<close>. For every such input, and so for what
  the entry point has collected, deduplication returns exactly the entries that are the
  first with their pair (section, value), in input order: an entry stays if and only if no
  earlier entry has the same pair. Hence no two entries of its output, and no two entries
  of the report, have the same (section, value), every collected pair is still in the
  report, and the count of the report is the length of its strings.
\<close>

theorem deduplicateStrings_keeps_first_occurrences:
  "((\<forall>s\<in>set xs. Section s \<in> {''.text'', ''.rodata'', ''.data.rel.ro''}) \<longrightarrow>
        deduplicateStrings xs = firsts_by section_value xs)
   \<and> deduplicateStrings (collected T file minLength) = firsts_by section_value (collected T file minLength)
   \<and> distinct (map section_value (deduplicateStrings xs))
   \<and> (sort_Slice_contract sort_Slice \<longrightarrow>
        distinct (map section_value (Strings (fst (extractStrings sort_Slice T file minLength))))
        \<and> section_value ` set (Strings (fst (extractStrings sort_Slice T file minLength)))
            = section_value ` set (collected T file minLength))
   \<and> Count (fst (extractStrings sort_Slice T file minLength))
       = int (length (Strings (fst (extractStrings sort_Slice T file minLength))))"
proof -
  have pairs: "deduplicateStrings ys = firsts_by section_value ys"
    if "\<forall>s\<in>set ys. CHR ''|'' \<notin> set (Section s)" for ys
    unfolding deduplicateStrings_firsts
    by (rule firsts_by_cong) (use that in \<open>simp add: dedup_key_inj\<close>)
  have three: "\<forall>s\<in>set ys. CHR ''|'' \<notin> set (Section s)"
    if "\<forall>s\<in>set ys. Section s \<in> {''.text'', ''.rodata'', ''.data.rel.ro''}" for ys
    using that by fastforce
  have labels: "\<forall>s\<in>set (collected T file minLength).
      Section s \<in> {''.text'', ''.rodata'', ''.data.rel.ro''}"
    using collected_Section [of _ T "file" minLength] by blast
  let ?d = "deduplicateStrings (collected T file minLength)"
  have report: "distinct (map section_value (Strings (fst (extractStrings sort_Slice T file minLength))))"
    if c: "sort_Slice_contract sort_Slice"
  proof -
    have "mset (map section_value (sort_Slice address_less ?d)) = mset (map section_value ?d)"
      using contract_mset [OF c, of ?d] by (metis mset_map)
    then have "distinct (map section_value (sort_Slice address_less ?d))
        \<longleftrightarrow> distinct (map section_value ?d)"
      by (rule mset_eq_imp_distinct_iff)
    then show ?thesis
      by (simp add: extractStrings_eq distinct_section_value_dedup)
  qed
  have kept: "section_value ` set (Strings (fst (extractStrings sort_Slice T file minLength)))
      = section_value ` set (collected T file minLength)"
    if c: "sort_Slice_contract sort_Slice"
  proof -
    have "set (Strings (fst (extractStrings sort_Slice T file minLength))) = set ?d"
      using contract_set [OF c, of ?d] by (simp add: extractStrings_eq)
    moreover have "section_value ` set ?d = section_value ` set (collected T file minLength)"
      unfolding pairs [OF three [OF labels]] by (rule image_set_firsts_by)
    ultimately show ?thesis by simp
  qed
  show ?thesis
    using pairs [OF three, of xs] pairs [OF three [OF labels]] report kept
    by (simp add: distinct_section_value_dedup extractStrings_eq)
qed

theorem deduplicateStrings_keeps_first_occurrences_witness:
  "list_all (\<lambda>s. Section s \<in> {''.text'', ''.rodata'', ''.data.rel.ro''}) dup_input
   \<and> deduplicateStrings dup_input =
       [\<lparr>Value = ''hello'', Address = 0x10, Section = ''.text''\<rparr>,
        \<lparr>Value = ''hello'', Address = 0x20, Section = ''.rodata''\<rparr>,
        \<lparr>Value = ''world'', Address = 0x40, Section = ''.text''\<rparr>]
   \<and> sort_Slice_contract stable_sort
   \<and> collected latin1_tables dup_file 5 =
       [\<lparr>Value = ''Hello, world!'', Address = 0x2000, Section = ''.text''\<rparr>,
        \<lparr>Value = ''Hello, world!'', Address = 0x200E, Section = ''.text''\<rparr>,
        \<lparr>Value = ''Hello, world!'', Address = 0x1000, Section = ''.rodata''\<rparr>]
   \<and> fst (extractStrings stable_sort latin1_tables dup_file 5) =
       \<lparr>Strings =
          [\<lparr>Value = ''Hello, world!'', Address = 0x1000, Section = ''.rodata''\<rparr>,
           \<lparr>Value = ''Hello, world!'', Address = 0x2000, Section = ''.text''\<rparr>],
        Count = 2\<rparr>
   \<and> distinct (map section_value
        (Strings (fst (extractStrings stable_sort latin1_tables dup_file 5))))"
proof -
  have h: "\<forall>s\<in>set dup_input. Section s \<in> {''.text'', ''.rodata'', ''.data.rel.ro''}"
    by (simp add: dup_input_def)
  have e: "firsts_by section_value dup_input =
       [\<lparr>Value = ''hello'', Address = 0x10, Section = ''.text''\<rparr>,
        \<lparr>Value = ''hello'', Address = 0x20, Section = ''.rodata''\<rparr>,
        \<lparr>Value = ''world'', Address = 0x40, Section = ''.text''\<rparr>]"
    by (simp add: firsts_by_def dup_input_def section_value_def upt_rec)
  have f: "firsts_by section_value (collected latin1_tables dup_file 5) =
       [\<lparr>Value = ''Hello, world!'', Address = 0x2000, Section = ''.text''\<rparr>,
        \<lparr>Value = ''Hello, world!'', Address = 0x1000, Section = ''.rodata''\<rparr>]"
    by (simp add: dup_file_collected firsts_by_def section_value_def upt_rec)
  note inst = deduplicateStrings_keeps_first_occurrences [of dup_input latin1_tables dup_file 5
      stable_sort]
  from inst h have A: "deduplicateStrings dup_input = firsts_by section_value dup_input"
    by blast
  from inst have D: "deduplicateStrings (collected latin1_tables dup_file 5)
      = firsts_by section_value (collected latin1_tables dup_file 5)"
    by blast
  from inst stable_sort_contract
  have B: "distinct (map section_value
        (Strings (fst (extractStrings stable_sort latin1_tables dup_file 5))))"
    by blast
  have R: "fst (extractStrings stable_sort latin1_tables dup_file 5) =
       \<lparr>Strings =
          [\<lparr>Value = ''Hello, world!'', Address = 0x1000, Section = ''.rodata''\<rparr>,
           \<lparr>Value = ''Hello, world!'', Address = 0x2000, Section = ''.text''\<rparr>],
        Count = 2\<rparr>"
    by (simp add: extractStrings_eq D f stable_sort_def address_less_def)
  have "list_all (\<lambda>s. Section s \<in> {''.text'', ''.rodata'', ''.data.rel.ro''}) dup_input"
    using h by (simp add: list_all_iff)
  with A B R e stable_sort_contract dup_file_collected show ?thesis by simp
qed

subsection \<open>C2: the order of the report\<close>

text \<open>
  C2 (amended). With any \<^verbatim>\<open>sort.Slice\<close> that keeps its documented contract, the strings
  of the report are sorted by ascending address (each entry's address is at most the next
  one's) and are a permutation of the deduplicated entries. The order of entries with
  equal addresses is left to \<^verbatim>\<open>sort.Slice\<close>.
\<close>

theorem report_sorted_by_address:
  "sort_Slice_contract sort_Slice \<longrightarrow>
     sorted_wrt (\<lambda>a b. Address a \<le> Address b)
       (Strings (fst (extractStrings sort_Slice T file minLength)))
     \<and> (\<forall>i. i + 1 < length (Strings (fst (extractStrings sort_Slice T file minLength))) \<longrightarrow>
           Address (Strings (fst (extractStrings sort_Slice T file minLength)) ! i)
             \<le> Address (Strings (fst (extractStrings sort_Slice T file minLength)) ! (i + 1)))
     \<and> mset (Strings (fst (extractStrings sort_Slice T file minLength)))
         = mset (deduplicateStrings (collected T file minLength))"
proof
  assume c: "sort_Slice_contract sort_Slice"
  let ?S = "Strings (fst (extractStrings sort_Slice T file minLength))"
  from contract_sorted [OF c] have s: "sorted_wrt (\<lambda>a b. Address a \<le> Address b) ?S"
    by (simp add: report_strings address_sorted_iff)
  then have "\<forall>i. i + 1 < length ?S \<longrightarrow> Address (?S ! i) \<le> Address (?S ! (i + 1))"
    by (simp add: sorted_wrt_iff_nth_less)
  moreover from contract_mset [OF c]
  have "mset ?S = mset (deduplicateStrings (collected T file minLength))"
    by (simp add: report_strings)
  ultimately show "sorted_wrt (\<lambda>a b. Address a \<le> Address b) ?S
     \<and> (\<forall>i. i + 1 < length ?S \<longrightarrow> Address (?S ! i) \<le> Address (?S ! (i + 1)))
     \<and> mset ?S = mset (deduplicateStrings (collected T file minLength))"
    using s by blast
qed

theorem report_sorted_by_address_witness:
  "sort_Slice_contract stable_sort
   \<and> deduplicateStrings (collected latin1_tables sections_file 5)
       = [\<lparr>Value = ''Hello, world!'', Address = 0x2000, Section = ''.text''\<rparr>,
          \<lparr>Value = ''Hello, world!'', Address = 0x1002, Section = ''.rodata''\<rparr>]
   \<and> Strings (fst (extractStrings stable_sort latin1_tables sections_file 5))
       = [\<lparr>Value = ''Hello, world!'', Address = 0x1002, Section = ''.rodata''\<rparr>,
          \<lparr>Value = ''Hello, world!'', Address = 0x2000, Section = ''.text''\<rparr>]
   \<and> sorted_wrt (\<lambda>a b. Address a \<le> Address b)
       (Strings (fst (extractStrings stable_sort latin1_tables sections_file 5)))"
proof -
  have "Strings (fst (extractStrings stable_sort latin1_tables sections_file 5))
       = [\<lparr>Value = ''Hello, world!'', Address = 0x1002, Section = ''.rodata''\<rparr>,
          \<lparr>Value = ''Hello, world!'', Address = 0x2000, Section = ''.text''\<rparr>]"
    by (simp add: report_strings sections_file_deduplicated stable_sort_def address_less_def)
  moreover from report_sorted_by_address [of stable_sort latin1_tables sections_file 5]
    stable_sort_contract
  have "sorted_wrt (\<lambda>a b. Address a \<le> Address b)
       (Strings (fst (extractStrings stable_sort latin1_tables sections_file 5)))"
    by blast
  ultimately show ?thesis
    using stable_sort_contract sections_file_deduplicated by blast
qed

text \<open>
  As stated the claim fails. The text section of \<open>ties_file\<close> yields thirteen entries;
  \<open>Hello w\<close>, found by the ASCII scan, and \<open>utf8_buffer\<close>, found by the UTF-8 scan, have the
  same address, and \<open>Hello w\<close> enters the sort first. The library's \<open>Slice\<close> returns them in
  the reverse order.
\<close>

theorem report_ties_counterexample:
  "deduplicateStrings (collected latin1_tables ties_file 5) =
     [\<lparr>Value = ''Hello w'', Address = 0x1000, Section = ''.text''\<rparr>,
     \<lparr>Value = ''runtime'', Address = 0x100D, Section = ''.text''\<rparr>,
     \<lparr>Value = ''golang'', Address = 0x1015, Section = ''.text''\<rparr>,
     \<lparr>Value = ''string'', Address = 0x101C, Section = ''.text''\<rparr>,
     \<lparr>Value = ''buffer'', Address = 0x1023, Section = ''.text''\<rparr>,
     \<lparr>Value = ''handle'', Address = 0x102A, Section = ''.text''\<rparr>,
     \<lparr>Value = ''kernel'', Address = 0x1031, Section = ''.text''\<rparr>,
     \<lparr>Value = ''module'', Address = 0x1038, Section = ''.text''\<rparr>,
     \<lparr>Value = ''object'', Address = 0x103F, Section = ''.text''\<rparr>,
     \<lparr>Value = ''printf'', Address = 0x1046, Section = ''.text''\<rparr>,
     \<lparr>Value = ''socket'', Address = 0x104D, Section = ''.text''\<rparr>,
     \<lparr>Value = ''thread'', Address = 0x1054, Section = ''.text''\<rparr>,
     \<lparr>Value = utf8_buffer, Address = 0x1000, Section = ''.text''\<rparr>]
   \<and> Strings (fst (extractStrings (Slice xorshift_Next) latin1_tables ties_file 5)) =
     [\<lparr>Value = utf8_buffer, Address = 0x1000, Section = ''.text''\<rparr>,
     \<lparr>Value = ''Hello w'', Address = 0x1000, Section = ''.text''\<rparr>,
     \<lparr>Value = ''runtime'', Address = 0x100D, Section = ''.text''\<rparr>,
     \<lparr>Value = ''golang'', Address = 0x1015, Section = ''.text''\<rparr>,
     \<lparr>Value = ''string'', Address = 0x101C, Section = ''.text''\<rparr>,
     \<lparr>Value = ''buffer'', Address = 0x1023, Section = ''.text''\<rparr>,
     \<lparr>Value = ''handle'', Address = 0x102A, Section = ''.text''\<rparr>,
     \<lparr>Value = ''kernel'', Address = 0x1031, Section = ''.text''\<rparr>,
     \<lparr>Value = ''module'', Address = 0x1038, Section = ''.text''\<rparr>,
     \<lparr>Value = ''object'', Address = 0x103F, Section = ''.text''\<rparr>,
     \<lparr>Value = ''printf'', Address = 0x1046, Section = ''.text''\<rparr>,
     \<lparr>Value = ''socket'', Address = 0x104D, Section = ''.text''\<rparr>,
     \<lparr>Value = ''thread'', Address = 0x1054, Section = ''.text''\<rparr>]"
  using ties_sorted [of xorshift_Next]
  by (simp add: report_strings ties_file_deduplicated ties_entries_def)

subsection \<open>C3: the composition check\<close>

text \<open>
  C3. Where the trimmed text is not empty, is not a repeated byte and is not
  assembly-like, the classifier accepts if and only if \<open>good * 100 div total \<ge> 70\<close>,
  \<open>good\<close> counting the code points of the trimmed text that are a letter, a digit, a space
  or common punctuation, and \<open>total\<close> counting all of them (it is not zero).
\<close>

theorem isLikelyString_composition:
  assumes "TrimSpace s \<noteq> []" and "\<not> isRepeatedChar (TrimSpace s)"
    and "\<not> looksLikeAssemblyCode T (TrimSpace s)"
  shows "0 < length (runes (TrimSpace s))
    \<and> (isLikelyString T s \<longleftrightarrow>
         70 \<le> length (filter (is_good_rune T) (runes (TrimSpace s))) * 100
                 div length (runes (TrimSpace s)))
    \<and> (\<forall>r. is_good_rune T r \<longleftrightarrow>
         IsLetter T r \<or> IsDigit T r \<or> r = 0x20 \<or> r \<in> byte_val ` set common_punctuation)"
proof -
  have "0 < length (runes (TrimSpace s))
    \<and> (isLikelyString T s \<longleftrightarrow>
         70 \<le> length (filter (is_good_rune T) (runes (TrimSpace s))) * 100
                 div length (runes (TrimSpace s)))"
    using assms runes_nonempty [of "TrimSpace s"]
    by (simp add: isLikelyString_def Let_def count_fold not_less)
  moreover have "\<forall>r. is_good_rune T r \<longleftrightarrow>
      IsLetter T r \<or> IsDigit T r \<or> r = 0x20 \<or> r \<in> byte_val ` set common_punctuation"
    by (simp add: is_good_rune_def isCommonPunctuation_def)
  ultimately show ?thesis by blast
qed

theorem isLikelyString_composition_witness:
  "TrimSpace comp70 = comp70
   \<and> length (filter (is_good_rune latin1_tables) (runes comp70)) = 7
   \<and> length (runes comp70) = 10
   \<and> isLikelyString latin1_tables comp70
   \<and> TrimSpace comp69 = comp69
   \<and> length (filter (is_good_rune latin1_tables) (runes comp69)) = 9
   \<and> length (runes comp69) = 13
   \<and> \<not> isLikelyString latin1_tables comp69"
proof -
  have t70: "TrimSpace comp70 = comp70" by code_simp
  have g70: "length (filter (is_good_rune latin1_tables) (runes comp70)) = 7" by code_simp
  have n70: "length (runes comp70) = 10" by code_simp
  have r70: "\<not> isRepeatedChar comp70" by code_simp
  have a70: "\<not> looksLikeAssemblyCode latin1_tables comp70" by code_simp
  have t69: "TrimSpace comp69 = comp69" by code_simp
  have g69: "length (filter (is_good_rune latin1_tables) (runes comp69)) = 9" by code_simp
  have n69: "length (runes comp69) = 13" by code_simp
  have r69: "\<not> isRepeatedChar comp69" by code_simp
  have a69: "\<not> looksLikeAssemblyCode latin1_tables comp69" by code_simp
  have ne: "comp70 \<noteq> []" "comp69 \<noteq> []" by (simp_all add: comp70_def comp69_def)
  from isLikelyString_composition [of comp70 latin1_tables] ne r70 a70
  have "isLikelyString latin1_tables comp70" by (simp add: t70 g70 n70)
  moreover from isLikelyString_composition [of comp69 latin1_tables] ne r69 a69
  have "\<not> isLikelyString latin1_tables comp69" by (simp add: t69 g69 n69)
  ultimately show ?thesis using t70 g70 n70 t69 g69 n69 by blast
qed

subsection \<open>C4: repeated bytes\<close>

text \<open>
  C4 (amended). \<^verbatim>\<open>isRepeatedChar\<close> compares bytes: where the trimmed text has at least
  three bytes, all of them equal, the classifier rejects; in particular every text of three
  or more \<open>a\<close>.
\<close>

theorem isLikelyString_repeated_byte:
  "(3 \<le> length (TrimSpace s) \<and> (\<forall>c\<in>set (TrimSpace s). c = TrimSpace s ! 0)
      \<longrightarrow> \<not> isLikelyString T s)
   \<and> (3 \<le> n \<longrightarrow> \<not> isLikelyString T (replicate n CHR ''a''))"
proof -
  have rep: "\<not> isLikelyString T s'"
    if "3 \<le> length (TrimSpace s')" "\<forall>c\<in>set (TrimSpace s'). c = TrimSpace s' ! 0" for s'
    using that by (simp add: isLikelyString_def Let_def isRepeatedChar_iff)
  have "\<not> isLikelyString T (replicate n CHR ''a'')" if n: "3 \<le> n"
  proof -
    from n have ne: "replicate n CHR ''a'' \<noteq> []" by auto
    with n have "hd (replicate n CHR ''a'') = CHR ''a''" "last (replicate n CHR ''a'') = CHR ''a''"
      by (simp_all add: hd_replicate last_replicate)
    with ne have "TrimSpace (replicate n CHR ''a'') = replicate n CHR ''a''"
      by (intro TrimSpace_unchanged) (simp_all add: IsSpace_def MaxLatin1_def)
    with n show ?thesis by (intro rep) simp_all
  qed
  with rep [of s] show ?thesis by blast
qed

theorem isLikelyString_repeated_byte_witness:
  "TrimSpace ''  zzz '' = ''zzz'' \<and> \<not> isLikelyString latin1_tables ''  zzz ''
   \<and> \<not> isLikelyString latin1_tables (replicate 8 CHR ''a'')"
proof -
  have t: "TrimSpace ''  zzz '' = ''zzz''" by code_simp
  from isLikelyString_repeated_byte [of "''  zzz ''" latin1_tables 8] t show ?thesis
    by simp
qed

text \<open>
  As stated, with characters read as code points, the claim fails: the text of three
  \<open>U+00E9\<close> is a single repeated character of length 3, its six bytes alternate between
  \<open>0xC3\<close> and \<open>0xA9\<close>, and the classifier accepts it.
\<close>

theorem isLikelyString_repeated_rune_counterexample:
  "runes (TrimSpace e_acute3) = [0xE9, 0xE9, 0xE9] \<and> isLikelyString latin1_tables e_acute3"
proof -
  have "runes (TrimSpace e_acute3) = [0xE9, 0xE9, 0xE9]" by code_simp
  moreover have "isLikelyString latin1_tables e_acute3" by code_simp
  ultimately show ?thesis by blast
qed

subsection \<open>C5: the assembly and hex-dump detector\<close>

text \<open>
  C5 (amended). For a text whose lower-cased form has one byte for each character, as
  every text of ASCII bytes has: the text is flagged if and only if its lower-cased form
  starts with one of the twelve mnemonics or contains one followed by a space, or is not
  empty and has \<open>hex * 100 div n > 80\<close>, where \<open>hex\<close> counts its characters in \<open>0-9\<close>, \<open>a-f\<close> or
  \<open>x\<close> and \<open>n\<close> is its total character count. The percentage is an integer, truncated, so
  the hex signal needs \<open>100 * hex \<ge> 81 * n\<close>.
\<close>

theorem looksLikeAssemblyCode_iff:
  "(length (runes (ToLower T s)) = length (ToLower T s) \<longrightarrow>
      (looksLikeAssemblyCode T s \<longleftrightarrow>
         (\<exists>h\<in>set [''mov'', ''jmp'', ''call'', ''ret'', ''lea'', ''add'', ''sub'', ''xor'', ''push'',
                    ''pop'', ''cmp'', ''test''].
             prefix h (ToLower T s) \<or> sublist (h @ '' '') (ToLower T s))
         \<or> (ToLower T s \<noteq> []
             \<and> 80 < length (filter is_hex_rune (runes (ToLower T s))) * 100
                     div length (runes (ToLower T s))))
      \<and> (ToLower T s \<noteq> [] \<longrightarrow>
           (80 < length (filter is_hex_rune (runes (ToLower T s))) * 100
                   div length (runes (ToLower T s))
            \<longleftrightarrow> 81 * length (runes (ToLower T s))
                  \<le> 100 * length (filter is_hex_rune (runes (ToLower T s))))))
   \<and> (isPureASCII s \<longrightarrow> length (runes (ToLower T s)) = length (ToLower T s))
   \<and> (\<forall>r. is_hex_rune r \<longleftrightarrow> (0x30 \<le> r \<and> r \<le> 0x39) \<or> (0x61 \<le> r \<and> r \<le> 0x66) \<or> r = 0x78)"
proof -
  let ?lower = "ToLower T s"
  let ?hex = "length (filter is_hex_rune (runes ?lower))"
  let ?n = "length (runes ?lower)"
  have code: "looksLikeAssemblyCode T s \<longleftrightarrow>
      (\<exists>h\<in>set asmHints. prefix h ?lower \<or> sublist (h @ '' '') ?lower)
      \<or> (?lower \<noteq> [] \<and> 80 < ?hex * 100 div length ?lower)"
    by (simp add: looksLikeAssemblyCode_def Let_def has_hint_iff count_fold)
  have flagged: "looksLikeAssemblyCode T s \<longleftrightarrow>
      (\<exists>h\<in>set asmHints. prefix h ?lower \<or> sublist (h @ '' '') ?lower)
      \<or> (?lower \<noteq> [] \<and> 80 < ?hex * 100 div ?n)"
    if "?n = length ?lower"
    unfolding code that ..
  have percent: "80 < ?hex * 100 div ?n \<longleftrightarrow> 81 * ?n \<le> 100 * ?hex" if "?lower \<noteq> []"
  proof -
    from that have pos: "0 < ?n" using runes_nonempty by blast
    have "80 < ?hex * 100 div ?n \<longleftrightarrow> 81 \<le> ?hex * 100 div ?n" by linarith
    also have "\<dots> \<longleftrightarrow> 81 * ?n \<le> ?hex * 100"
      using pos by (rule less_eq_div_iff_mult_less_eq)
    finally show ?thesis by (simp add: mult.commute)
  qed
  have ascii: "?n = length ?lower" if "isPureASCII s"
    by (rule ToLower_ascii_runes [OF that])
  have hex: "\<forall>r. is_hex_rune r \<longleftrightarrow> (0x30 \<le> r \<and> r \<le> 0x39) \<or> (0x61 \<le> r \<and> r \<le> 0x66) \<or> r = 0x78"
    by (simp add: is_hex_rune_def)
  from flagged percent ascii hex show ?thesis unfolding asmHints_def by blast
qed

theorem looksLikeAssemblyCode_iff_witness:
  "isPureASCII ''mov eax, ebx''
   \<and> prefix ''mov'' (ToLower latin1_tables ''mov eax, ebx'')
   \<and> looksLikeAssemblyCode latin1_tables ''mov eax, ebx''
   \<and> isPureASCII ''0x1a2b3c4d5e6f''
   \<and> \<not> has_hint (ToLower latin1_tables ''0x1a2b3c4d5e6f'') asmHints
   \<and> length (filter is_hex_rune (runes (ToLower latin1_tables ''0x1a2b3c4d5e6f''))) = 14
   \<and> length (runes (ToLower latin1_tables ''0x1a2b3c4d5e6f'')) = 14
   \<and> looksLikeAssemblyCode latin1_tables ''0x1a2b3c4d5e6f''"
proof -
  have l1: "ToLower latin1_tables ''mov eax, ebx'' = ''mov eax, ebx''" by code_simp
  have l2: "ToLower latin1_tables ''0x1a2b3c4d5e6f'' = ''0x1a2b3c4d5e6f''" by code_simp
  have h2: "\<not> has_hint ''0x1a2b3c4d5e6f'' asmHints" by code_simp
  have c2: "length (filter is_hex_rune (runes ''0x1a2b3c4d5e6f'')) = 14" by code_simp
  have p1: "isPureASCII ''mov eax, ebx''" and p2: "isPureASCII ''0x1a2b3c4d5e6f''" by simp_all
  note i1 = looksLikeAssemblyCode_iff [of latin1_tables "''mov eax, ebx''"]
  note i2 = looksLikeAssemblyCode_iff [of latin1_tables "''0x1a2b3c4d5e6f''"]
  from i1 p1 have n1: "length (runes (ToLower latin1_tables ''mov eax, ebx''))
      = length (ToLower latin1_tables ''mov eax, ebx'')" by blast
  from i2 p2 have n2: "length (runes (ToLower latin1_tables ''0x1a2b3c4d5e6f''))
      = length (ToLower latin1_tables ''0x1a2b3c4d5e6f'')" by blast
  from i1 n1 have "looksLikeAssemblyCode latin1_tables ''mov eax, ebx''"
    by (simp add: l1)
  moreover from i2 n2 have "looksLikeAssemblyCode latin1_tables ''0x1a2b3c4d5e6f''"
    by (simp add: l2 c2)
  moreover from n2 have "length (runes (ToLower latin1_tables ''0x1a2b3c4d5e6f'')) = 14"
    by (simp add: l2)
  ultimately show ?thesis using h2 c2 p1 p2 by (simp add: l1 l2)
qed

text \<open>
  As stated the claim fails: in \<open>hex17of21\<close>, a text of ASCII bytes, 17 of the 21 characters
  are hex digits, more than 80 percent, no mnemonic occurs, and the text is not flagged,
  since \<open>1700 div 21 = 80\<close>.
\<close>

theorem looksLikeAssemblyCode_percent_counterexample:
  "length (filter is_hex_rune (runes (ToLower latin1_tables hex17of21))) = 17
   \<and> length (runes (ToLower latin1_tables hex17of21)) = 21
   \<and> length (ToLower latin1_tables hex17of21) = 21
   \<and> (80::nat) * 21 < 17 * 100
   \<and> \<not> looksLikeAssemblyCode latin1_tables hex17of21"
proof -
  have "length (filter is_hex_rune (runes (ToLower latin1_tables hex17of21))) = 17" by code_simp
  moreover have "length (runes (ToLower latin1_tables hex17of21)) = 21" by code_simp
  moreover have "length (ToLower latin1_tables hex17of21) = 21" by code_simp
  moreover have "\<not> looksLikeAssemblyCode latin1_tables hex17of21" by code_simp
  ultimately show ?thesis by simp
qed

subsection \<open>C6: the ASCII scanner\<close>

text \<open>
  C6 (amended). The ASCII scanner classifies: its output is, in the order of the buffer
  and each once, one entry for every maximal run of bytes in \<open>[0x20, 0x7E]\<close> (a run open
  at the end of the buffer included) that has at least \<open>minLength\<close> bytes and that
  \<^verbatim>\<open>isLikelyString\<close> accepts; the entry holds the bytes of the run and the index of its
  first byte.
\<close>

theorem extractASCIIStrings_maximal_runs:
  "(\<exists>runs. extractASCIIStrings T b minLength
        = map (\<lambda>(s, e). \<lparr>Value = slice b s e, Address = of_nat s\<rparr>) runs
      \<and> sorted_wrt (\<lambda>p q. snd p < fst q) runs
      \<and> set runs = {(s, e). is_max_run b s e \<and> minLength \<le> int (e - s)
                       \<and> isLikelyString T (slice b s e)})
   \<and> (\<forall>s e. is_max_run b s e \<longleftrightarrow>
         s < e \<and> e \<le> length b
         \<and> (\<forall>k. s \<le> k \<and> k < e \<longrightarrow> 0x20 \<le> byte_val (b ! k) \<and> byte_val (b ! k) \<le> 0x7E)
         \<and> (s = 0 \<or> \<not> isPrintableASCII (b ! (s - 1)))
         \<and> (e = length b \<or> \<not> isPrintableASCII (b ! e)))"
proof -
  from extractASCIIStrings_runs [of T b minLength] obtain runs
    where "extractASCIIStrings T b minLength = map (entry b) runs" and "in_order runs"
      and "set runs = {(s, e). is_max_run b s e \<and> accepted T b minLength (s, e)}"
    by blast
  then have "extractASCIIStrings T b minLength
        = map (\<lambda>(s, e). \<lparr>Value = slice b s e, Address = of_nat s\<rparr>) runs
      \<and> sorted_wrt (\<lambda>p q. snd p < fst q) runs
      \<and> set runs = {(s, e). is_max_run b s e \<and> minLength \<le> int (e - s)
                       \<and> isLikelyString T (slice b s e)}"
    by (simp add: entry_def in_order_def accepted_def)
  moreover have "is_max_run b s e \<longleftrightarrow>
         s < e \<and> e \<le> length b
         \<and> (\<forall>k. s \<le> k \<and> k < e \<longrightarrow> 0x20 \<le> byte_val (b ! k) \<and> byte_val (b ! k) \<le> 0x7E)
         \<and> (s = 0 \<or> \<not> isPrintableASCII (b ! (s - 1)))
         \<and> (e = length b \<or> \<not> isPrintableASCII (b ! e))" for s e
    unfolding is_max_run_def run_from_iff by (auto simp: isPrintableASCII_def)
  ultimately show ?thesis by blast
qed

theorem extractASCIIStrings_maximal_runs_witness:
  "extractASCIIStrings latin1_tables scenario 5 = [\<lparr>Value = ''Hello, world!'', Address = 2\<rparr>]
   \<and> (\<exists>runs. extractASCIIStrings latin1_tables scenario 5
         = map (\<lambda>(s, e). \<lparr>Value = slice scenario s e, Address = of_nat s\<rparr>) runs
       \<and> (2, 15) \<in> set runs \<and> (17, 27) \<notin> set runs)"
proof -
  from extractASCIIStrings_maximal_runs [of latin1_tables scenario 5] obtain runs
    where r: "extractASCIIStrings latin1_tables scenario 5
        = map (\<lambda>(s, e). \<lparr>Value = slice scenario s e, Address = of_nat s\<rparr>) runs"
      and s: "set runs = {(s, e). is_max_run scenario s e \<and> 5 \<le> int (e - s)
                       \<and> isLikelyString latin1_tables (slice scenario s e)}"
    by blast
  from s have "(2, 15) \<in> set runs" "(17, 27) \<notin> set runs"
    by (simp_all add: scenario_runs likely_hello_world unlikely_mov)
  with r scenario_scan show ?thesis by blast
qed

text \<open>
  As stated the claim fails: in the scenario the bytes at 17 to 26 are a maximal run of
  ten printable bytes, \<open>mov eax, 1\<close>, and with \<open>minLength = 5\<close> the scanner does not emit
  it, because it applies the classifier itself.
\<close>

theorem extractASCIIStrings_classifies_counterexample:
  "is_max_run scenario 17 27 \<and> (5::int) \<le> int (27 - 17)
   \<and> slice scenario 17 27 = ''mov eax, 1''
   \<and> \<lparr>Value = ''mov eax, 1'', Address = 17\<rparr> \<notin> set (extractASCIIStrings latin1_tables scenario 5)
   \<and> extractASCIIStrings latin1_tables scenario 5 = [\<lparr>Value = ''Hello, world!'', Address = 2\<rparr>]"
  by (simp add: scenario_runs scenario_scan)

subsection \<open>C7: the UTF-8 scanner\<close>

text \<open>
  C7. Every run the UTF-8 scanner emits has at least \<open>minLength\<close> code points, all of
  them validly decoded and none a control code point (so no newline, carriage return or
  tab); at least one of them is encoded in more than one byte and is not an ASCII code
  point; the value is the bytes of the buffer from the run's first byte, whose position is
  the offset; and no string of the ASCII path equals it.
\<close>

theorem extractUTF8Strings_runs:
  assumes "u \<in> set (extractUTF8Strings T b minLength)"
  shows "minLength \<le> int (length (runes (Value u)))
    \<and> (\<exists>d\<in>set (decode_all (Value u)). 1 < snd d \<and> 0x80 \<le> fst d)
    \<and> (\<forall>d\<in>set (decode_all (Value u)). \<not> decode_error d)
    \<and> (\<forall>r\<in>set (runes (Value u)). \<not> IsControl r \<and> r \<noteq> 0x0A \<and> r \<noteq> 0x0D \<and> r \<noteq> 0x09)
    \<and> (\<exists>k j. k < j \<and> j \<le> length b \<and> Value u = slice b k j \<and> Address u = of_nat k
          \<and> utf8_run b k 0 = (j, length (runes (Value u))))
    \<and> (\<forall>a\<in>set (extractASCIIStrings T b minLength'). Value a \<noteq> Value u)"
  using assms by (rule utf8_entry_facts)

theorem extractUTF8Strings_runs_witness:
  "\<lparr>Value = utf8_buffer, Address = 0\<rparr> \<in> set (extractUTF8Strings latin1_tables utf8_buffer 5)
   \<and> 5 \<le> int (length (runes utf8_buffer))
   \<and> list_ex (\<lambda>d. 1 < snd d \<and> 0x80 \<le> fst d) (decode_all utf8_buffer)
   \<and> list_all (\<lambda>r. \<not> IsControl r) (runes utf8_buffer)
   \<and> list_all (\<lambda>a. Value a \<noteq> utf8_buffer) (extractASCIIStrings latin1_tables utf8_buffer 5)"
proof -
  have m: "\<lparr>Value = utf8_buffer, Address = 0\<rparr> \<in> set (extractUTF8Strings latin1_tables utf8_buffer 5)"
    by (simp add: utf8_buffer_scan)
  from extractUTF8Strings_runs [OF m, of 5] m show ?thesis
    by (simp add: list_all_iff list_ex_iff)
qed

subsection \<open>C8: the minimum length\<close>

text \<open>
  C8. No string the scanners emit, and so no value of the report, has fewer than
  \<open>minLength\<close> decoded characters: an ASCII-path string has as many code points as bytes,
  at least \<open>minLength\<close>, and a UTF-8-path string has at least \<open>minLength\<close> code points.
\<close>

theorem minimum_length:
  "(\<forall>a\<in>set (extractASCIIStrings T b minLength).
       minLength \<le> int (length (Value a)) \<and> length (runes (Value a)) = length (Value a))
   \<and> (\<forall>u\<in>set (extractUTF8Strings T b minLength). minLength \<le> int (length (runes (Value u))))
   \<and> (sort_Slice_contract sort_Slice \<longrightarrow>
        (\<forall>e\<in>set (Strings (fst (extractStrings sort_Slice T file minLength))).
           minLength \<le> int (length (runes (Value e)))))"
proof -
  have any: "minLength \<le> int (length (runes (Value s)))"
    if "s \<in> set (extractPrintableStrings T data minLength)" for s data
    using that ascii_rune_count [of s T data minLength] utf8_rune_count [of s T data minLength]
    by (auto simp: printable_strings_set)
  have "minLength \<le> int (length (runes (Value e)))"
    if c: "sort_Slice_contract sort_Slice"
      and e: "e \<in> set (Strings (fst (extractStrings sort_Slice T file minLength)))" for e
  proof -
    from report_subset [OF c] e have "e \<in> set (collected T file minLength)" by blast
    from collected_origin [OF this] obtain name start data s
      where "s \<in> set (extractPrintableStrings T data minLength)"
        and "e = \<lparr>Value = Value s, Address = start + Address s, Section = name\<rparr>"
      by blast
    with any [of s data] show ?thesis by simp
  qed
  then show ?thesis
    using ascii_rune_count [of _ T b minLength] utf8_rune_count [of _ T b minLength] by blast
qed

theorem minimum_length_witness:
  "sort_Slice_contract stable_sort
   \<and> Strings (fst (extractStrings stable_sort latin1_tables tie_file 5))
       = [\<lparr>Value = ''Hello w'', Address = 0x1000, Section = ''.text''\<rparr>,
          \<lparr>Value = utf8_buffer, Address = 0x1000, Section = ''.text''\<rparr>]
   \<and> list_all (\<lambda>e. 5 \<le> int (length (runes (Value e))))
       (Strings (fst (extractStrings stable_sort latin1_tables tie_file 5)))
   \<and> length (runes utf8_buffer) = 11 \<and> length utf8_buffer = 12"
proof -
  have "Strings (fst (extractStrings stable_sort latin1_tables tie_file 5))
       = [\<lparr>Value = ''Hello w'', Address = 0x1000, Section = ''.text''\<rparr>,
          \<lparr>Value = utf8_buffer, Address = 0x1000, Section = ''.text''\<rparr>]"
    by (simp add: report_strings tie_file_deduplicated stable_sort_def address_less_def)
  moreover from minimum_length [of latin1_tables utf8_buffer 5 stable_sort tie_file]
    stable_sort_contract
  have "list_all (\<lambda>e. 5 \<le> int (length (runes (Value e))))
       (Strings (fst (extractStrings stable_sort latin1_tables tie_file 5)))"
    unfolding list_all_iff by blast
  moreover have "length (runes utf8_buffer) = 11" by code_simp
  moreover have "length utf8_buffer = 12" by (simp add: utf8_buffer_def)
  ultimately show ?thesis using stable_sort_contract by blast
qed

subsection \<open>C9: the entry point does not fail\<close>

text \<open>
  C9. The entry point returns a report and the error \<^verbatim>\<open>nil\<close>. A section whose accessor
  returns an error or an empty buffer adds nothing to the results, so no entry of the
  report carries its label; and where no section yields a string the report has no
  strings and count 0. Every loop of the model terminates, and the divisor of the one
  unguarded division, in \<^verbatim>\<open>isLikelyString\<close>, is not zero where it is reached.
\<close>

theorem extractStrings_never_fails:
  "snd (extractStrings sort_Slice T file minLength) = None
   \<and> (TrimSpace s \<noteq> [] \<longrightarrow> 0 < length (runes (TrimSpace s)))
   \<and> (err \<noteq> None \<or> data = [] \<longrightarrow> pull T minLength name (start, data, err) results = results)
   \<and> (sort_Slice_contract sort_Slice \<longrightarrow>
        (snd (snd (Text file)) \<noteq> None \<or> fst (snd (Text file)) = [] \<longrightarrow>
           (\<forall>e\<in>set (Strings (fst (extractStrings sort_Slice T file minLength))).
              Section e \<noteq> ''.text''))
        \<and> (snd (snd (RData file)) \<noteq> None \<or> fst (snd (RData file)) = [] \<longrightarrow>
           (\<forall>e\<in>set (Strings (fst (extractStrings sort_Slice T file minLength))).
              Section e \<noteq> ''.rodata''))
        \<and> (snd (snd (RelRData file)) \<noteq> None \<or> fst (snd (RelRData file)) = [] \<longrightarrow>
           (\<forall>e\<in>set (Strings (fst (extractStrings sort_Slice T file minLength))).
              Section e \<noteq> ''.data.rel.ro''))
        \<and> (collected T file minLength = [] \<longrightarrow>
             fst (extractStrings sort_Slice T file minLength) = \<lparr>Strings = [], Count = 0\<rparr>))"
proof -
  let ?S = "Strings (fst (extractStrings sort_Slice T file minLength))"
  have skip: "section_entries T minLength n d = []"
    if "snd (snd d) \<noteq> None \<or> fst (snd d) = []" for n d
    using that by (cases d) (auto simp: section_entries_def)
  have "pull T minLength name (start, data, err) results = results" if "err \<noteq> None \<or> data = []"
    using that by (simp add: pull_eq section_entries_skip)
  moreover have "\<forall>e\<in>set ?S. Section e \<noteq> ''.text''"
    if c: "sort_Slice_contract sort_Slice"
      and "snd (snd (Text file)) \<noteq> None \<or> fst (snd (Text file)) = []"
    using report_subset [OF c, of T "file" minLength] skip [OF that(2)]
    by (auto simp: collected_def dest!: section_entries_Section)
  moreover have "\<forall>e\<in>set ?S. Section e \<noteq> ''.rodata''"
    if c: "sort_Slice_contract sort_Slice"
      and "snd (snd (RData file)) \<noteq> None \<or> fst (snd (RData file)) = []"
    using report_subset [OF c, of T "file" minLength] skip [OF that(2)]
    by (auto simp: collected_def dest!: section_entries_Section)
  moreover have "\<forall>e\<in>set ?S. Section e \<noteq> ''.data.rel.ro''"
    if c: "sort_Slice_contract sort_Slice"
      and "snd (snd (RelRData file)) \<noteq> None \<or> fst (snd (RelRData file)) = []"
    using report_subset [OF c, of T "file" minLength] skip [OF that(2)]
    by (auto simp: collected_def dest!: section_entries_Section)
  moreover have "fst (extractStrings sort_Slice T file minLength) = \<lparr>Strings = [], Count = 0\<rparr>"
    if c: "sort_Slice_contract sort_Slice" and e: "collected T file minLength = []"
  proof -
    have "deduplicateStrings (collected T file minLength) = []"
      using e by (simp add: deduplicateStrings_def)
    with contract_mset [OF c, of "[]"] show ?thesis
      by (simp add: extractStrings_eq)
  qed
  moreover have "snd (extractStrings sort_Slice T file minLength) = None"
    by (simp add: extractStrings_eq)
  moreover have "0 < length (runes (TrimSpace s))" if "TrimSpace s \<noteq> []"
    using runes_nonempty [OF that] by simp
  ultimately show ?thesis by blast
qed

theorem extractStrings_never_fails_witness:
  "sort_Slice_contract stable_sort
   \<and> collected latin1_tables skipped_file 5 = []
   \<and> extractStrings stable_sort latin1_tables skipped_file 5 = (\<lparr>Strings = [], Count = 0\<rparr>, None)
   \<and> pull latin1_tables 5 ''.rodata'' (0x2000, ''Hello, world!'', Some (Error ''read error'')) [] = []"
proof -
  note inst = extractStrings_never_fails [of stable_sort latin1_tables skipped_file 5 "[]"
      "Some (Error ''read error'')" "''Hello, world!''" "''.rodata''" "0x2000" "[]"]
  from inst stable_sort_contract skipped_file_collected
  have "fst (extractStrings stable_sort latin1_tables skipped_file 5) = \<lparr>Strings = [], Count = 0\<rparr>"
    by blast
  moreover from inst have "snd (extractStrings stable_sort latin1_tables skipped_file 5) = None"
    by blast
  ultimately have "extractStrings stable_sort latin1_tables skipped_file 5
      = (\<lparr>Strings = [], Count = 0\<rparr>, None)"
    by (simp add: prod_eq_iff)
  moreover from inst
  have "pull latin1_tables 5 ''.rodata'' (0x2000, ''Hello, world!'', Some (Error ''read error'')) [] = []"
    by blast
  ultimately show ?thesis using stable_sort_contract skipped_file_collected by blast
qed

subsection \<open>C10: addresses wrap\<close>

text \<open>
  C10. An address is the section's start plus the local offset in 64-bit unsigned
  arithmetic, with no overflow check: it is the sum modulo \<open>2^64\<close>, so the exact sum where
  that is below \<open>2^64\<close>, and the sum less \<open>2^64\<close> otherwise. This holds for every entry a
  section adds to the results and for every entry of the report.
\<close>

theorem address_wraps:
  "(e \<in> set (pull T minLength name (start, data, err) results) \<longrightarrow>
      e \<in> set results
      \<or> (\<exists>s\<in>set (extractPrintableStrings T data minLength).
            Value e = Value s \<and> Section e = name \<and> Address e = start + Address s
            \<and> unat (Address e) = (unat start + unat (Address s)) mod 2 ^ 64
            \<and> (unat start + unat (Address s) < 2 ^ 64 \<longrightarrow>
                 unat (Address e) = unat start + unat (Address s))
            \<and> (2 ^ 64 \<le> unat start + unat (Address s) \<longrightarrow>
                 unat (Address e) = unat start + unat (Address s) - 2 ^ 64)))
   \<and> (sort_Slice_contract sort_Slice \<longrightarrow>
        (\<forall>r\<in>set (Strings (fst (extractStrings sort_Slice T file minLength))).
           \<exists>label base buffer s.
             (label, base, buffer, None) \<in> {(''.text'', Text file), (''.rodata'', RData file),
                (''.data.rel.ro'', RelRData file)}
             \<and> s \<in> set (extractPrintableStrings T buffer minLength)
             \<and> Value r = Value s \<and> Section r = label \<and> Address r = base + Address s
             \<and> unat (Address r) = (unat base + unat (Address s)) mod 2 ^ 64))"
proof -
  have one: "e \<in> set results
      \<or> (\<exists>s\<in>set (extractPrintableStrings T data minLength).
            Value e = Value s \<and> Section e = name \<and> Address e = start + Address s
            \<and> unat (Address e) = (unat start + unat (Address s)) mod 2 ^ 64
            \<and> (unat start + unat (Address s) < 2 ^ 64 \<longrightarrow>
                 unat (Address e) = unat start + unat (Address s))
            \<and> (2 ^ 64 \<le> unat start + unat (Address s) \<longrightarrow>
                 unat (Address e) = unat start + unat (Address s) - 2 ^ 64))"
    if "e \<in> set (pull T minLength name (start, data, err) results)"
  proof (cases "e \<in> set results")
    case True
    then show ?thesis by blast
  next
    case False
    with that have "e \<in> set (section_entries T minLength name (start, data, err))"
      by (simp add: pull_eq)
    from section_entries_origin [OF this] obtain s
      where s: "s \<in> set (extractPrintableStrings T data minLength)"
        and e: "e = \<lparr>Value = Value s, Address = start + Address s, Section = name\<rparr>"
      by blast
    from e have "Value e = Value s" "Section e = name" "Address e = start + Address s"
      by simp_all
    with s unat_add64 [of start "Address s"] show ?thesis by metis
  qed
  have all: "\<exists>label base buffer s.
             (label, base, buffer, None) \<in> {(''.text'', Text file), (''.rodata'', RData file),
                (''.data.rel.ro'', RelRData file)}
             \<and> s \<in> set (extractPrintableStrings T buffer minLength)
             \<and> Value r = Value s \<and> Section r = label \<and> Address r = base + Address s
             \<and> unat (Address r) = (unat base + unat (Address s)) mod 2 ^ 64"
    if c: "sort_Slice_contract sort_Slice"
      and r: "r \<in> set (Strings (fst (extractStrings sort_Slice T file minLength)))" for r
  proof -
    from report_subset [OF c] r have "r \<in> set (collected T file minLength)" by blast
    from collected_origin [OF this] obtain label base buffer s
      where "(label, base, buffer, None) \<in> {(''.text'', Text file), (''.rodata'', RData file),
                (''.data.rel.ro'', RelRData file)}"
        and "s \<in> set (extractPrintableStrings T buffer minLength)"
        and "r = \<lparr>Value = Value s, Address = base + Address s, Section = label\<rparr>"
      by blast
    moreover from this(3)
    have "Value r = Value s" "Section r = label" "Address r = base + Address s" by simp_all
    ultimately show ?thesis using unat_add64(1) [of base "Address s"] by metis
  qed
  from one all show ?thesis by blast
qed

theorem address_wraps_witness:
  "pull latin1_tables 5 ''.text'' (0xFFFFFFFFFFFFFFFE, wrap_data, None) []
     = [\<lparr>Value = ''Hello, world!'', Address = 2, Section = ''.text''\<rparr>]
   \<and> extractPrintableStrings latin1_tables wrap_data 5 = [\<lparr>Value = ''Hello, world!'', Address = 4\<rparr>]
   \<and> unat (0xFFFFFFFFFFFFFFFE + 4 :: uint64) = (unat (0xFFFFFFFFFFFFFFFE :: uint64) + unat (4 :: uint64)) mod 2 ^ 64
   \<and> unat (0xFFFFFFFFFFFFFFFE + 4 :: uint64) = 2"
proof -
  let ?e = "\<lparr>Value = ''Hello, world!'', Address = 2, Section = ''.text''\<rparr> :: StringInfo"
  have "wrap_data \<noteq> []" by (simp add: wrap_data_def)
  then have p: "pull latin1_tables 5 ''.text'' (0xFFFFFFFFFFFFFFFE, wrap_data, None) [] = [?e]"
    by (simp add: pull_eq section_entries_def wrap_strings)
  then have "?e \<in> set (pull latin1_tables 5 ''.text'' (0xFFFFFFFFFFFFFFFE, wrap_data, None) [])"
    by simp
  with address_wraps [of ?e latin1_tables 5 "''.text''" "0xFFFFFFFFFFFFFFFE" wrap_data None "[]"]
  have "unat (Address ?e) = (unat (0xFFFFFFFFFFFFFFFE :: uint64) + unat (4 :: uint64)) mod 2 ^ 64"
    by (simp add: wrap_strings)
  then have "unat (0xFFFFFFFFFFFFFFFE + 4 :: uint64)
      = (unat (0xFFFFFFFFFFFFFFFE :: uint64) + unat (4 :: uint64)) mod 2 ^ 64"
    by simp
  moreover have "unat (0xFFFFFFFFFFFFFFFE + 4 :: uint64) = 2" by simp
  ultimately show ?thesis using p wrap_strings by blast
qed

end
